theory Spec2Isabelle
  imports
    Complex_Main
    "HOL-Library.Char_ord"
    "HOL-Library.List_Lexorder"
    "HOL-Library.Sublist"
    "HOL-Library.Multiset"
    "HOL-Library.AList"
begin

section \<open>Data model\<close>

text \<open>
  The \<^verbatim>\<open>Lead\<close> type of \<^verbatim>\<open>src/lib/supabase.ts\<close>, restricted to the fields that the
  modelled functions read. \<^verbatim>\<open>id\<close> and \<^verbatim>\<open>email\<close> are required strings; every other field
  is optional. A field that is absent (\<^verbatim>\<open>undefined\<close>) or \<^verbatim>\<open>null\<close> in the row is \<open>None\<close>:
  the modelled code never tells the two apart (truthiness tests, \<^verbatim>\<open>?.\<close>, \<^verbatim>\<open>===\<close> against a
  string, and the explicit test \<^verbatim>\<open>=== null || === undefined\<close>).
  Strings are lists of code units and are compared unit by unit, as JavaScript compares
  them; the characters of the model are the code units below 256.
\<close>

record lead =
  lead_id :: string
  email :: string
  fullname :: "string option"
  company_name :: "string option"
  job_title :: "string option"
  stage :: "string option"
  lead_source :: "string option"
  industry :: "string option"
  last_updated_at :: "string option"
  booked_at :: "string option"
  replied :: "bool option"
  booked :: "bool option"
  day_1_sent :: "bool option"
  day_2_sent :: "bool option"
  day_3_sent :: "bool option"
  day_4_sent :: "bool option"

text \<open>JavaScript truthiness of an optional boolean.\<close>

definition truthy :: "bool option \<Rightarrow> bool" where
  "truthy b = (b = Some True)"

text \<open>A lead with the given id and e-mail address and every optional field absent.\<close>

definition new_lead :: "string \<Rightarrow> string \<Rightarrow> lead" where
  "new_lead i e =
     \<lparr> lead_id = i, email = e, fullname = None, company_name = None, job_title = None,
       stage = None, lead_source = None, industry = None, last_updated_at = None,
       booked_at = None, replied = None, booked = None,
       day_1_sent = None, day_2_sent = None, day_3_sent = None, day_4_sent = None \<rparr>"

section \<open>Stage inference (\<^verbatim>\<open>src/lib/leadUtils.ts\<close>)\<close>

definition getCurrentStage :: "lead \<Rightarrow> string" where
  "getCurrentStage l =
     (if truthy (day_4_sent l) then ''Day 4 Sent''
      else if truthy (day_3_sent l) then ''Day 3 Sent''
      else if truthy (day_2_sent l) then ''Day 2 Sent''
      else if truthy (day_1_sent l) then ''Day 1 Sent''
      else ''Not Started'')"

definition getNextStage :: "lead \<Rightarrow> string" where
  "getNextStage l =
     (if \<not> truthy (day_1_sent l) then ''Awaiting Day 1''
      else if \<not> truthy (day_2_sent l) then ''Awaiting Day 2''
      else if \<not> truthy (day_3_sent l) then ''Awaiting Day 3''
      else if \<not> truthy (day_4_sent l) then ''Awaiting Day 4''
      else ''Sequence Complete'')"

text \<open>
  Vocabulary for stating the stage claims: \<open>sent l n\<close> is the flag \<^verbatim>\<open>day_n_sent\<close> of the
  lead read as a condition, and \<open>digit n\<close> is the decimal digit \<open>n\<close> as a string.
\<close>

definition sent :: "lead \<Rightarrow> nat \<Rightarrow> bool" where
  "sent l n =
     (if n = 1 then truthy (day_1_sent l)
      else if n = 2 then truthy (day_2_sent l)
      else if n = 3 then truthy (day_3_sent l)
      else if n = 4 then truthy (day_4_sent l)
      else False)"

definition digit :: "nat \<Rightarrow> string" where
  "digit n = [''0123456789'' ! n]"

section \<open>Dashboard funnel (\<^verbatim>\<open>Dashboard.tsx\<close>, \<^verbatim>\<open>fetchLeadsData\<close>)\<close>

text \<open>
  Counts are natural numbers. The result of a division or a multiplication is a
  JavaScript number: a finite value, \<^verbatim>\<open>NaN\<close> or \<^verbatim>\<open>Infinity\<close>. Dividing by zero does not
  raise: \<^verbatim>\<open>0 / 0\<close> is \<^verbatim>\<open>NaN\<close> and \<^verbatim>\<open>n / 0\<close> is \<^verbatim>\<open>Infinity\<close> for a positive \<open>n\<close>. A finite value
  is the exact rational value of the expression; the rounding of IEEE doubles is not
  modelled.
\<close>

datatype number = Num rat | NaN | Infinity

definition divide_counts :: "nat \<Rightarrow> nat \<Rightarrow> number" where
  "divide_counts a b =
     (if b = 0 then (if a = 0 then NaN else Infinity) else Num (of_nat a / of_nat b))"

definition times_100 :: "number \<Rightarrow> number" where
  "times_100 x = (case x of Num q \<Rightarrow> Num (q * 100) | NaN \<Rightarrow> NaN | Infinity \<Rightarrow> Infinity)"

record FunnelStage =
  name :: string
  count :: nat
  percentage :: number

definition Math_max :: "nat list \<Rightarrow> nat" where
  "Math_max xs = Max (set xs)"

text \<open>Lines 81 to 90: the shared denominator and the six stages, from the six counts.\<close>

definition funnelFromCounts ::
  "nat \<Rightarrow> nat \<Rightarrow> nat \<Rightarrow> nat \<Rightarrow> nat \<Rightarrow> nat \<Rightarrow> FunnelStage list" where
  "funnelFromCounts day1Sent day2Sent day3Sent day4Sent repliedN bookedN =
     (let maxCount = Math_max [day1Sent, day2Sent, day3Sent, day4Sent, repliedN, bookedN, 1] in
      [ \<lparr> name = ''Day 1 Sent'', count = day1Sent,
          percentage = times_100 (divide_counts day1Sent maxCount) \<rparr>,
        \<lparr> name = ''Day 2 Sent'', count = day2Sent,
          percentage = times_100 (divide_counts day2Sent maxCount) \<rparr>,
        \<lparr> name = ''Day 3 Sent'', count = day3Sent,
          percentage = times_100 (divide_counts day3Sent maxCount) \<rparr>,
        \<lparr> name = ''Day 4 Sent'', count = day4Sent,
          percentage = times_100 (divide_counts day4Sent maxCount) \<rparr>,
        \<lparr> name = ''Replied'', count = repliedN,
          percentage = times_100 (divide_counts repliedN maxCount) \<rparr>,
        \<lparr> name = ''Booked'', count = bookedN,
          percentage = times_100 (divide_counts bookedN maxCount) \<rparr> ])"

text \<open>Lines 74 to 90: the six counts over the fetched leads, then the stages.\<close>

definition funnelStages :: "lead list \<Rightarrow> FunnelStage list" where
  "funnelStages leadsData =
     (let day1Sent = length (filter (\<lambda>lead. truthy (day_1_sent lead)) leadsData);
          day2Sent = length (filter (\<lambda>lead. truthy (day_2_sent lead)) leadsData);
          day3Sent = length (filter (\<lambda>lead. truthy (day_3_sent lead)) leadsData);
          day4Sent = length (filter (\<lambda>lead. truthy (day_4_sent lead)) leadsData);
          repliedN = length (filter (\<lambda>lead. truthy (replied lead)) leadsData);
          bookedN = length (filter (\<lambda>lead. truthy (booked lead)) leadsData)
      in funnelFromCounts day1Sent day2Sent day3Sent day4Sent repliedN bookedN)"

text \<open>
  Vocabulary for stating the funnel claims: the six checkpoint flags in funnel order, the
  denominator "maximum of the six counts and 1" read off a list of stages, and the funnel
  of a list of six counts.
\<close>

definition checkpoints :: "(lead \<Rightarrow> bool option) list" where
  "checkpoints = [day_1_sent, day_2_sent, day_3_sent, day_4_sent, replied, booked]"

definition denominator :: "FunnelStage list \<Rightarrow> nat" where
  "denominator fs = Max (insert 1 (set (map count fs)))"

definition funnelOfList :: "nat list \<Rightarrow> FunnelStage list" where
  "funnelOfList cs = funnelFromCounts (cs ! 0) (cs ! 1) (cs ! 2) (cs ! 3) (cs ! 4) (cs ! 5)"

section \<open>Search, filter, sort and paginate (\<^verbatim>\<open>ActiveCampaigns.tsx\<close>, \<^verbatim>\<open>AllLeads\<close>)\<close>

text \<open>
  \<^verbatim>\<open>String.prototype.toLowerCase\<close> belongs to the runtime and is a parameter of the search.
  \<open>toLowerCase_Latin1\<close> is that function on the strings of the model, whose characters
  are the code units below 256: it maps A to Z and the capital letters U+00C0 to U+00DE
  (without the sign U+00D7) to the letter 32 places further, and leaves every other
  character as it is. \<^verbatim>\<open>String.prototype.includes\<close> is the test for a contiguous
  substring.
\<close>

definition toLowerChar_Latin1 :: "char \<Rightarrow> char" where
  "toLowerChar_Latin1 c =
     (case map_of
        (zip (''ABCDEFGHIJKLMNOPQRSTUVWXYZ'' @
              [CHR 0xC0, CHR 0xC1, CHR 0xC2, CHR 0xC3, CHR 0xC4, CHR 0xC5, CHR 0xC6, CHR 0xC7,
               CHR 0xC8, CHR 0xC9, CHR 0xCA, CHR 0xCB, CHR 0xCC, CHR 0xCD, CHR 0xCE, CHR 0xCF,
               CHR 0xD0, CHR 0xD1, CHR 0xD2, CHR 0xD3, CHR 0xD4, CHR 0xD5, CHR 0xD6, CHR 0xD8,
               CHR 0xD9, CHR 0xDA, CHR 0xDB, CHR 0xDC, CHR 0xDD, CHR 0xDE])
             (''abcdefghijklmnopqrstuvwxyz'' @
              [CHR 0xE0, CHR 0xE1, CHR 0xE2, CHR 0xE3, CHR 0xE4, CHR 0xE5, CHR 0xE6, CHR 0xE7,
               CHR 0xE8, CHR 0xE9, CHR 0xEA, CHR 0xEB, CHR 0xEC, CHR 0xED, CHR 0xEE, CHR 0xEF,
               CHR 0xF0, CHR 0xF1, CHR 0xF2, CHR 0xF3, CHR 0xF4, CHR 0xF5, CHR 0xF6, CHR 0xF8,
               CHR 0xF9, CHR 0xFA, CHR 0xFB, CHR 0xFC, CHR 0xFD, CHR 0xFE])) c of
        Some d \<Rightarrow> d
      | None \<Rightarrow> c)"

definition toLowerCase_Latin1 :: "string \<Rightarrow> string" where
  "toLowerCase_Latin1 s = map toLowerChar_Latin1 s"

fun String_includes :: "string \<Rightarrow> string \<Rightarrow> bool" where
  "String_includes [] t = (t = [])"
| "String_includes (c # s) t = (prefix t (c # s) \<or> String_includes s t)"

text \<open>The \<^verbatim>\<open>filters\<close> state of the view: one string per filtered field, empty for none.\<close>

record filters =
  stage_filter :: string
  lead_source_filter :: string
  industry_filter :: string

definition searchMatch :: "(string \<Rightarrow> string) \<Rightarrow> string \<Rightarrow> lead \<Rightarrow> bool" where
  "searchMatch toLowerCase searchTerm l =
     (searchTerm = []
      \<or> (case fullname l of
            None \<Rightarrow> False
          | Some s \<Rightarrow> String_includes (toLowerCase s) (toLowerCase searchTerm))
      \<or> String_includes (toLowerCase (email l)) (toLowerCase searchTerm)
      \<or> (case company_name l of
            None \<Rightarrow> False
          | Some s \<Rightarrow> String_includes (toLowerCase s) (toLowerCase searchTerm)))"

definition filteredLeads ::
  "(string \<Rightarrow> string) \<Rightarrow> string \<Rightarrow> filters \<Rightarrow> lead list \<Rightarrow> lead list" where
  "filteredLeads toLowerCase searchTerm fs leads =
     filter (\<lambda>l.
       let stageMatch = (stage_filter fs = [] \<or> stage l = Some (stage_filter fs));
           sourceMatch =
             (lead_source_filter fs = [] \<or> lead_source l = Some (lead_source_filter fs));
           industryMatch = (industry_filter fs = [] \<or> industry l = Some (industry_filter fs))
       in searchMatch toLowerCase searchTerm l \<and> stageMatch \<and> sourceMatch \<and> industryMatch)
       leads"

text \<open>
  The comparator handed to \<^verbatim>\<open>sort\<close>. The sort column is given as the field selector, so
  \<^verbatim>\<open>a[sortColumn]\<close> is \<open>sortColumn a\<close>; the value type is any linearly ordered type, which
  covers the string columns (ordered code by code) and the boolean columns
  (\<^verbatim>\<open>false < true\<close>).
\<close>

datatype sortDirection = asc | desc

definition compareFn ::
  "(lead \<Rightarrow> 'v::linorder option) \<Rightarrow> sortDirection \<Rightarrow> lead \<Rightarrow> lead \<Rightarrow> int" where
  "compareFn sortColumn dir a b =
     (case sortColumn a of
        None \<Rightarrow> 1
      | Some aValue \<Rightarrow>
         (case sortColumn b of
            None \<Rightarrow> - 1
          | Some bValue \<Rightarrow>
             (let comparison = 0;
                  comparison = (if aValue < bValue then - 1 else comparison);
                  comparison = (if aValue > bValue then 1 else comparison)
              in if dir = desc then - comparison else comparison)))"

text \<open>
  \<^verbatim>\<open>Array.prototype.sort(comparefn)\<close> is a stable sort of the runtime. ECMAScript fixes
  its result only for a consistent comparator; for any other comparator the order is
  left to the implementation, and engines differ in how they consult the comparator.
  The sort is therefore a function of the engine, modelled as insertion of the elements
  from left to right in the two ways in use:
  \<^item> \<open>TestsNegative\<close>: the element moves in front of the first element before it for which
    \<^verbatim>\<open>comparefn(element, other) < 0\<close>, so the comparator is asked about
    (later, earlier) and tested for a negative result, as V8 does;
  \<^item> \<open>TestsPositive\<close>: the element moves back past the elements before it as long as
    \<^verbatim>\<open>comparefn(other, element) > 0\<close>, so the comparator is asked about (earlier, later)
    and tested for a positive result, as the insertion and merge steps written
    \<^verbatim>\<open>if (comparefn(a[j], item) <= 0) break\<close> do.
  \<open>insert_back\<close> takes the elements already placed from the last one to the first.
  Where the comparator is not consistent an engine can give yet another order (V8 finds
  the place of an element by bisection); the results on sorting are proved for both
  ways, or name the one they are about.
\<close>

datatype engine = TestsNegative | TestsPositive

fun insert_by :: "('a \<Rightarrow> 'a \<Rightarrow> int) \<Rightarrow> 'a \<Rightarrow> 'a list \<Rightarrow> 'a list" where
  "insert_by comparefn x [] = [x]"
| "insert_by comparefn x (y # ys) =
     (if comparefn x y < 0 then x # y # ys else y # insert_by comparefn x ys)"

fun insert_back :: "('a \<Rightarrow> 'a \<Rightarrow> int) \<Rightarrow> 'a \<Rightarrow> 'a list \<Rightarrow> 'a list" where
  "insert_back comparefn x [] = [x]"
| "insert_back comparefn x (y # ys) =
     (if comparefn y x > 0 then y # insert_back comparefn x ys else x # y # ys)"

fun Array_sort :: "engine \<Rightarrow> ('a \<Rightarrow> 'a \<Rightarrow> int) \<Rightarrow> 'a list \<Rightarrow> 'a list" where
  "Array_sort TestsNegative comparefn xs = foldl (\<lambda>acc x. insert_by comparefn x acc) [] xs"
| "Array_sort TestsPositive comparefn xs =
     rev (foldl (\<lambda>acc x. insert_back comparefn x acc) [] xs)"

definition sortedLeads ::
  "engine \<Rightarrow> (lead \<Rightarrow> 'v::linorder option) \<Rightarrow> sortDirection \<Rightarrow> lead list \<Rightarrow> lead list" where
  "sortedLeads eng sortColumn dir filtered = Array_sort eng (compareFn sortColumn dir) filtered"

text \<open>
  \<^verbatim>\<open>Array.prototype.slice(start, end)\<close> on integers: a negative index counts from the end,
  and both indices are clamped to the length.
\<close>

definition slice :: "'a list \<Rightarrow> int \<Rightarrow> int \<Rightarrow> 'a list" where
  "slice xs start fin =
     (let len = int (length xs);
          k = (if start < 0 then max (len + start) 0 else min start len);
          final = (if fin < 0 then max (len + fin) 0 else min fin len)
      in take (nat (final - k)) (drop (nat k) xs))"

text \<open>Page sizes: 25 in Active Campaigns, All Leads and Booked Meetings, 20 in Replies.\<close>

definition leadsPerPage_ActiveCampaigns :: nat where
  "leadsPerPage_ActiveCampaigns = 25"

definition leadsPerPage_RepliesEngagement :: nat where
  "leadsPerPage_RepliesEngagement = 20"

definition totalPages :: "'a list \<Rightarrow> nat \<Rightarrow> int" where
  "totalPages sortedL leadsPerPage = \<lceil>(of_nat (length sortedL) :: rat) / of_nat leadsPerPage\<rceil>"

definition currentLeads :: "nat \<Rightarrow> int \<Rightarrow> 'a list \<Rightarrow> 'a list" where
  "currentLeads leadsPerPage currentPage sortedL =
     (let indexOfLastLead = currentPage * int leadsPerPage;
          indexOfFirstLead = indexOfLastLead - int leadsPerPage
      in slice sortedL indexOfFirstLead indexOfLastLead)"

text \<open>The composed stages: search and filters, then sort; and the rendered page.\<close>

definition pipeline ::
  "(string \<Rightarrow> string) \<Rightarrow> engine \<Rightarrow> string \<Rightarrow> filters
     \<Rightarrow> (lead \<Rightarrow> 'v::linorder option) \<Rightarrow> sortDirection \<Rightarrow> lead list \<Rightarrow> lead list"
  where
  "pipeline toLowerCase eng searchTerm fs sortColumn dir leads =
     sortedLeads eng sortColumn dir (filteredLeads toLowerCase searchTerm fs leads)"

definition no_filters :: filters where
  "no_filters = \<lparr> stage_filter = [], lead_source_filter = [], industry_filter = [] \<rparr>"

section \<open>Booked-meetings analytics (\<^verbatim>\<open>BookedMeetings\<close>, \<^verbatim>\<open>analytics\<close>)\<close>

text \<open>
  The accumulator of \<^verbatim>\<open>reduce\<close> is the object literal \<^verbatim>\<open>{}\<close>: its own properties, in
  insertion order, over the properties it inherits from \<^verbatim>\<open>Object.prototype\<close>. A property
  holds a number, or the string that \<^verbatim>\<open>+ 1\<close> produces from a value that is not a number
  (\<open>NonNumeric\<close>; its text is never a numeral).
\<close>

datatype cell = Count nat | NonNumeric

datatype property = Own cell | Inherited | Undefined

definition Object_prototype_keys :: "string list" where
  "Object_prototype_keys =
     [''constructor'', ''__defineGetter__'', ''__defineSetter__'', ''hasOwnProperty'',
      ''__lookupGetter__'', ''__lookupSetter__'', ''isPrototypeOf'', ''propertyIsEnumerable'',
      ''toString'', ''valueOf'', ''__proto__'', ''toLocaleString'']"

text \<open>\<^verbatim>\<open>acc[key]\<close>: the own property, else the inherited one, else \<^verbatim>\<open>undefined\<close>.\<close>

definition get_property :: "(string \<times> cell) list \<Rightarrow> string \<Rightarrow> property" where
  "get_property acc key =
     (case map_of acc key of
        Some v \<Rightarrow> Own v
      | None \<Rightarrow> if key \<in> set Object_prototype_keys then Inherited else Undefined)"

text \<open>
  \<^verbatim>\<open>acc[key] = v\<close>: an own property is overwritten in place or added at the end. The key
  \<^verbatim>\<open>__proto__\<close> is the inherited setter, which ignores a value that is not an object.
\<close>

definition set_property :: "(string \<times> cell) list \<Rightarrow> string \<Rightarrow> cell \<Rightarrow> (string \<times> cell) list" where
  "set_property acc key v = (if key = ''__proto__'' then acc else AList.update key v acc)"

text \<open>
  \<^verbatim>\<open>(acc[key] || 0) + 1\<close>: a number that is not zero and every string or object is truthy;
  \<^verbatim>\<open>+\<close> adds numbers and concatenates otherwise.
\<close>

fun or_zero_plus_one :: "property \<Rightarrow> cell" where
  "or_zero_plus_one (Own (Count n)) = Count ((if n = 0 then 0 else n) + 1)"
| "or_zero_plus_one (Own NonNumeric) = NonNumeric"
| "or_zero_plus_one Inherited = NonNumeric"
| "or_zero_plus_one Undefined = Count (0 + 1)"

text \<open>\<^verbatim>\<open>value || 'Unknown'\<close> on an optional string.\<close>

definition or_Unknown :: "string option \<Rightarrow> string" where
  "or_Unknown v = (case v of None \<Rightarrow> ''Unknown'' | Some s \<Rightarrow> if s = [] then ''Unknown'' else s)"

definition groupStats :: "(lead \<Rightarrow> string option) \<Rightarrow> lead list \<Rightarrow> (string \<times> cell) list" where
  "groupStats groupField leads =
     foldl (\<lambda>acc lead.
              let key = or_Unknown (groupField lead)
              in set_property acc key (or_zero_plus_one (get_property acc key))) [] leads"

text \<open>
  \<^verbatim>\<open>Object.entries\<close>: the keys that are array indices (canonical decimal numerals below
  \<open>2\<^sup>3\<^sup>2 - 1\<close>) in ascending numeric order, then the other keys in insertion order.
\<close>

definition is_digit :: "char \<Rightarrow> bool" where
  "is_digit c = (c \<in> set ''0123456789'')"

definition decimal_value :: "string \<Rightarrow> nat" where
  "decimal_value s = foldl (\<lambda>n c. 10 * n + (of_char c - 48)) 0 s"

definition is_array_index :: "string \<Rightarrow> bool" where
  "is_array_index s =
     (s \<noteq> [] \<and> list_all is_digit s \<and> (s = ''0'' \<or> hd s \<noteq> CHR ''0'')
      \<and> decimal_value s < 4294967295)"

definition Object_entries :: "(string \<times> 'v) list \<Rightarrow> (string \<times> 'v) list" where
  "Object_entries obj =
     sort_key (\<lambda>p. decimal_value (fst p)) (filter (\<lambda>p. is_array_index (fst p)) obj)
     @ filter (\<lambda>p. \<not> is_array_index (fst p)) obj"

text \<open>
  One row of a breakdown. The percentage is the number \<^verbatim>\<open>(count / leads.length) * 100\<close>;
  for a count that is not a number it is \<^verbatim>\<open>NaN\<close>.
\<close>

record GroupRow =
  name :: string
  count :: cell
  percentage :: number

definition row_percentage :: "cell \<Rightarrow> nat \<Rightarrow> number" where
  "row_percentage c len =
     (case c of Count n \<Rightarrow> times_100 (divide_counts n len) | NonNumeric \<Rightarrow> NaN)"

text \<open>
  The comparator \<^verbatim>\<open>(a, b) => b.count - a.count\<close>; a difference that is \<^verbatim>\<open>NaN\<close> is taken
  as 0 by \<^verbatim>\<open>sort\<close>.
\<close>

definition byCountDesc :: "GroupRow \<Rightarrow> GroupRow \<Rightarrow> int" where
  "byCountDesc a b =
     (case (count b, count a) of
        (Count m, Count n) \<Rightarrow> int m - int n
      | _ \<Rightarrow> 0)"

definition groupData ::
  "engine \<Rightarrow> (lead \<Rightarrow> string option) \<Rightarrow> lead list \<Rightarrow> GroupRow list" where
  "groupData eng groupField leads =
     Array_sort eng byCountDesc
       (map (\<lambda>(n, c). \<lparr> name = n, count = c, percentage = row_percentage c (length leads) \<rparr>)
            (Object_entries (groupStats groupField leads)))"

record analytics_result =
  industryData :: "GroupRow list"
  sourceData :: "GroupRow list"

definition analytics :: "engine \<Rightarrow> lead list \<Rightarrow> analytics_result" where
  "analytics eng leads =
     \<lparr> industryData = groupData eng industry leads,
       sourceData = groupData eng lead_source leads \<rparr>"

text \<open>
  Vocabulary for stating the breakdown results: the group key of every lead, in the order
  of the leads.
\<close>

definition group_keys :: "(lead \<Rightarrow> string option) \<Rightarrow> lead list \<Rightarrow> string list" where
  "group_keys groupField L = map (\<lambda>l. or_Unknown (groupField l)) L"

section \<open>Optimistic update of a toggle (\<^verbatim>\<open>updateLeadStatus\<close>, \<^verbatim>\<open>updateBookedStatus\<close>)\<close>

text \<open>
  The object sent to the repository. A key that the object does not carry is \<open>None\<close>;
  \<^verbatim>\<open>booked_at\<close> can also be carried with the value \<^verbatim>\<open>null\<close>, which is \<open>Some None\<close>.
\<close>

datatype field = Replied | Booked

record updateData =
  upd_replied :: "bool option"
  upd_booked :: "bool option"
  upd_last_updated_at :: "string option"
  upd_booked_at :: "string option option"

text \<open>
  What the awaited repository call gives back: success, or a failure whose value is
  either an \<^verbatim>\<open>Error\<close> instance with a message or some other value. The requests issued
  to the repository are logged.
\<close>

datatype thrown = Error string | NotAnError

datatype response = Success | Failure thrown

datatype request = Update string updateData | FetchAll

record view_state =
  leads :: "lead list"
  error :: "string option"
  updatingLeads :: "string set"

definition field_name :: "field \<Rightarrow> string" where
  "field_name f = (case f of Replied \<Rightarrow> ''replied'' | Booked \<Rightarrow> ''booked'')"

text \<open>
  \<^verbatim>\<open>updateLeadStatus\<close> of Active Campaigns and of Replies (the same code). \<open>now1\<close> and
  \<open>now2\<close> are the two readings of the clock, \<^verbatim>\<open>new Date().toISOString()\<close>, in the order
  the function takes them. The state updates of one call are applied in program order:
  the id goes in flight, the awaited response is handled, the id leaves the set. What
  other handlers do while the call is awaiting is not modelled.
\<close>

definition updateLeadStatus_data :: "string \<Rightarrow> string \<Rightarrow> field \<Rightarrow> bool \<Rightarrow> updateData" where
  "updateLeadStatus_data now1 now2 f v =
     (let updateData =
            \<lparr> upd_replied = (if f = Replied then Some v else None),
              upd_booked = (if f = Booked then Some v else None),
              upd_last_updated_at = Some now1,
              upd_booked_at = None \<rparr>
      in if f = Booked \<and> v then updateData \<lparr> upd_booked_at := Some (Some now2) \<rparr>
         else updateData)"

definition updateLeadStatus ::
  "string \<Rightarrow> string \<Rightarrow> response \<Rightarrow> string \<Rightarrow> field \<Rightarrow> bool \<Rightarrow> view_state
     \<Rightarrow> view_state \<times> request list" where
  "updateLeadStatus now1 now2 resp leadId f v s =
     (let s1 = s \<lparr> updatingLeads := insert leadId (updatingLeads s) \<rparr>;
          requests = [Update leadId (updateLeadStatus_data now1 now2 f v)];
          s2 = (case resp of
                  Success \<Rightarrow>
                    s1 \<lparr> leads := filter (\<lambda>lead. lead_id lead \<noteq> leadId) (leads s1) \<rparr>
                | Failure err \<Rightarrow>
                    s1 \<lparr> error := Some (case err of
                                          Error message \<Rightarrow> message
                                        | NotAnError \<Rightarrow> ''Failed to update '' @ field_name f) \<rparr>);
          s3 = s2 \<lparr> updatingLeads := updatingLeads s2 - {leadId} \<rparr>
      in (s3, requests))"




section \<open>Sample data\<close>

text \<open>Concrete leads on which the results below are instantiated.\<close>

definition sample_funnel_leads :: "lead list" where
  "sample_funnel_leads =
     [new_lead ''a'' ''a@x.io'' \<lparr> day_1_sent := Some True \<rparr>,
      new_lead ''b'' ''b@x.io''
        \<lparr> replied := Some True, day_1_sent := Some True, day_2_sent := Some True \<rparr>,
      new_lead ''c'' ''c@x.io'' \<lparr> booked := Some False \<rparr>]"

definition sample_sort_leads :: "lead list" where
  "sample_sort_leads =
     [new_lead ''1'' ''Ann@x.io'' \<lparr> last_updated_at := Some ''2024-03-01'' \<rparr>,
      new_lead ''2'' ''bob@x.io'',
      new_lead ''3'' ''cy@x.io'' \<lparr> last_updated_at := Some ''2024-05-01'' \<rparr>,
      new_lead ''4'' ''di@x.io'' \<lparr> last_updated_at := Some ''2024-01-01'' \<rparr>]"

definition sample_nameless_leads :: "lead list" where
  "sample_nameless_leads = [new_lead ''1'' ''ann@x.io'', new_lead ''2'' ''bob@x.io'']"

definition sample_view :: view_state where
  "sample_view =
     \<lparr> leads = [new_lead ''1'' ''ann@x.io'', new_lead ''2'' ''bob@x.io'', new_lead ''3'' ''cy@x.io''],
       error = None,
       updatingLeads = {} \<rparr>"

definition sample_booked_leads :: "lead list" where
  "sample_booked_leads =
     [new_lead ''1'' ''ann@x.io'' \<lparr> industry := Some ''SaaS'' \<rparr>,
      new_lead ''2'' ''bob@x.io'' \<lparr> industry := Some [] \<rparr>,
      new_lead ''3'' ''cy@x.io'' \<lparr> industry := Some ''Retail'' \<rparr>,
      new_lead ''4'' ''di@x.io'',
      new_lead ''5'' ''ed@x.io'' \<lparr> industry := Some ''Retail'' \<rparr>,
      new_lead ''6'' ''flo@x.io'' \<lparr> industry := Some ''Retail'' \<rparr>]"

section \<open>Stage inference: results\<close>

lemma days_set: "{n \<in> {1..4}. P n} = set (filter P [1, 2, 3, 4::nat])"
proof -
  have "{1..4::nat} = {1, 2, 3, 4}" by auto
  then show ?thesis by auto
qed

lemma days_ex: "(\<exists>n\<in>{1..4::nat}. P n) = (P 1 \<or> P 2 \<or> P 3 \<or> P 4)"
proof -
  have "{1..4::nat} = {1, 2, 3, 4}" by auto
  then show ?thesis by auto
qed

text \<open>
  C1. For every lead, \<open>getCurrentStage\<close> is "Day N Sent" for the highest \<open>N\<close> in 1..4 whose
  flag is true and "Not Started" when no flag is true; \<open>getNextStage\<close> is "Awaiting Day N"
  for the lowest \<open>N\<close> in 1..4 whose flag is false and "Sequence Complete" when all four
  are true. Both are total functions of the four flags, with no error branch, whatever
  the combination of flags (gaps included).
\<close>

theorem stage_inference:
  "getCurrentStage l =
     (if \<exists>n\<in>{1..4}. sent l n
      then ''Day '' @ digit (Max {n \<in> {1..4}. sent l n}) @ '' Sent''
      else ''Not Started'')
   \<and> getNextStage l =
     (if \<exists>n\<in>{1..4}. \<not> sent l n
      then ''Awaiting Day '' @ digit (Min {n \<in> {1..4}. \<not> sent l n})
      else ''Sequence Complete'')"
  unfolding days_set days_ex
  by (cases "truthy (day_1_sent l)"; cases "truthy (day_2_sent l)";
      cases "truthy (day_3_sent l)"; cases "truthy (day_4_sent l)")
     (simp_all add: getCurrentStage_def getNextStage_def sent_def digit_def)

text \<open>
  The theorem at a lead with a gap: day 3 marked sent, days 1, 2 and 4 not.
\<close>

theorem stage_inference_witness:
  "getCurrentStage (new_lead ''a'' ''a@x.io'' \<lparr> day_3_sent := Some True \<rparr>)
     = ''Day '' @ digit (Max {n \<in> {1..4}.
         sent (new_lead ''a'' ''a@x.io'' \<lparr> day_3_sent := Some True \<rparr>) n}) @ '' Sent''
   \<and> getCurrentStage (new_lead ''a'' ''a@x.io'' \<lparr> day_3_sent := Some True \<rparr>) = ''Day 3 Sent''
   \<and> getNextStage (new_lead ''a'' ''a@x.io'' \<lparr> day_3_sent := Some True \<rparr>) = ''Awaiting Day 1''
   \<and> getCurrentStage (new_lead ''b'' ''b@x.io'') = ''Not Started''
   \<and> getNextStage (new_lead ''b'' ''b@x.io'') = ''Awaiting Day 1''"
  using stage_inference [of "new_lead ''a'' ''a@x.io'' \<lparr> day_3_sent := Some True \<rparr>"]
  by (simp add: days_ex sent_def truthy_def new_lead_def getCurrentStage_def getNextStage_def)

section \<open>Dashboard funnel: results\<close>

lemma funnel_names:
  "map FunnelStage.name (funnelFromCounts a b c d e f) =
     [''Day 1 Sent'', ''Day 2 Sent'', ''Day 3 Sent'', ''Day 4 Sent'', ''Replied'', ''Booked'']"
  unfolding funnelFromCounts_def Let_def by simp

lemma funnel_counts: "map FunnelStage.count (funnelFromCounts a b c d e f) = [a, b, c, d, e, f]"
  unfolding funnelFromCounts_def Let_def by simp

lemma funnel_denominator:
  "denominator (funnelFromCounts a b c d e f) = Math_max [a, b, c, d, e, f, 1]"
proof -
  have "insert 1 (set [a, b, c, d, e, f]) = set [a, b, c, d, e, f, 1]" by auto
  then show ?thesis unfolding denominator_def funnel_counts Math_max_def by (rule arg_cong)
qed

text \<open>
  The floor \<^verbatim>\<open>1\<close> among the arguments of \<^verbatim>\<open>Math.max\<close> keeps the divisor positive, so the
  quotient is a finite number. With a divisor 0 the percentage of a count 0 would be
  \<^verbatim>\<open>NaN\<close>.
\<close>

lemma Math_max_floor: "1 \<le> Math_max [a, b, c, d, e, f, 1]"
  unfolding Math_max_def by (rule Max_ge) simp_all

lemma percentage_finite:
  "0 < m \<Longrightarrow> times_100 (divide_counts c m) = Num (of_nat c / of_nat m * 100)"
  by (simp add: divide_counts_def times_100_def)

lemma percentage_zero_divisor: "times_100 (divide_counts 0 0) = NaN"
  by (simp add: divide_counts_def times_100_def)

lemma funnel_percentage:
  assumes "s \<in> set (funnelFromCounts a b c d e f)"
  shows "FunnelStage.percentage s =
     Num (of_nat (FunnelStage.count s) / of_nat (denominator (funnelFromCounts a b c d e f)) * 100)"
proof -
  let ?m = "Math_max [a, b, c, d, e, f, 1]"
  have m: "0 < ?m" using Math_max_floor [of a b c d e f] by linarith
  have "FunnelStage.percentage s = times_100 (divide_counts (FunnelStage.count s) ?m)"
    using assms unfolding funnelFromCounts_def Let_def by auto
  then show ?thesis unfolding funnel_denominator using percentage_finite [OF m] by simp
qed

lemma funnel_all_zero:
  assumes "s \<in> set (funnelFromCounts 0 0 0 0 0 0)"
  shows "FunnelStage.count s = 0 \<and> FunnelStage.percentage s = Num 0"
proof -
  have c: "FunnelStage.count s = 0"
    using assms unfolding funnelFromCounts_def Let_def by auto
  have "FunnelStage.percentage s =
     Num (of_nat (FunnelStage.count s) / of_nat (denominator (funnelFromCounts 0 0 0 0 0 0)) * 100)"
    using assms by (rule funnel_percentage)
  then show ?thesis using c by simp
qed

text \<open>
  C2. For every collection of leads the funnel has the six checkpoints in order, each
  with the number of leads whose flag is true and with the percentage
  count / max(all six counts, 1) * 100, a finite number: no division by zero yields
  \<^verbatim>\<open>NaN\<close> or \<^verbatim>\<open>Infinity\<close>. On the empty collection every count and every percentage is 0.
\<close>

theorem funnel_aggregation:
  "map FunnelStage.name (funnelStages L) =
     [''Day 1 Sent'', ''Day 2 Sent'', ''Day 3 Sent'', ''Day 4 Sent'', ''Replied'', ''Booked'']
   \<and> map FunnelStage.count (funnelStages L) =
       map (\<lambda>flag. card {i. i < length L \<and> truthy (flag (L ! i))}) checkpoints
   \<and> (\<forall>s \<in> set (funnelStages L).
         FunnelStage.percentage s =
           Num (of_nat (FunnelStage.count s) / of_nat (denominator (funnelStages L)) * 100))
   \<and> (\<forall>s \<in> set (funnelStages L).
         FunnelStage.percentage s \<noteq> NaN \<and> FunnelStage.percentage s \<noteq> Infinity)
   \<and> (L = [] \<longrightarrow>
         (\<forall>s \<in> set (funnelStages L).
            FunnelStage.count s = 0 \<and> FunnelStage.percentage s = Num 0))"
proof (intro conjI)
  show "map FunnelStage.name (funnelStages L) =
     [''Day 1 Sent'', ''Day 2 Sent'', ''Day 3 Sent'', ''Day 4 Sent'', ''Replied'', ''Booked'']"
    unfolding funnelStages_def Let_def by (rule funnel_names)
  show "map FunnelStage.count (funnelStages L) =
       map (\<lambda>flag. card {i. i < length L \<and> truthy (flag (L ! i))}) checkpoints"
    unfolding funnelStages_def Let_def funnel_counts checkpoints_def
    by (simp add: length_filter_conv_card)
  show pct: "\<forall>s \<in> set (funnelStages L).
         FunnelStage.percentage s =
           Num (of_nat (FunnelStage.count s) / of_nat (denominator (funnelStages L)) * 100)"
    unfolding funnelStages_def Let_def using funnel_percentage by blast
  show "\<forall>s \<in> set (funnelStages L).
         FunnelStage.percentage s \<noteq> NaN \<and> FunnelStage.percentage s \<noteq> Infinity"
    using pct by simp
  show "L = [] \<longrightarrow>
         (\<forall>s \<in> set (funnelStages L).
            FunnelStage.count s = 0 \<and> FunnelStage.percentage s = Num 0)"
  proof
    assume "L = []"
    then have "funnelStages L = funnelFromCounts 0 0 0 0 0 0"
      unfolding funnelStages_def Let_def by simp
    then show "\<forall>s \<in> set (funnelStages L).
                 FunnelStage.count s = 0 \<and> FunnelStage.percentage s = Num 0"
      using funnel_all_zero by simp
  qed
qed

text \<open>
  The theorem on three sample leads (counts 2, 1, 0, 0, 1, 0 against the denominator 2),
  on one lead without any flag (all counts 0, where only the floor keeps the divisor
  positive) and on the empty collection.
\<close>

theorem funnel_aggregation_witness:
  "map FunnelStage.count (funnelStages sample_funnel_leads) = [2, 1, 0, 0, 1, 0]
   \<and> map FunnelStage.percentage (funnelStages sample_funnel_leads)
       = [Num 100, Num 50, Num 0, Num 0, Num 50, Num 0]
   \<and> denominator (funnelStages sample_funnel_leads) = 2
   \<and> map FunnelStage.count (funnelStages []) = [0, 0, 0, 0, 0, 0]
   \<and> map FunnelStage.percentage (funnelStages [])
       = [Num 0, Num 0, Num 0, Num 0, Num 0, Num 0]
   \<and> map FunnelStage.percentage (funnelStages [new_lead ''a'' ''a@x.io''])
       = [Num 0, Num 0, Num 0, Num 0, Num 0, Num 0]"
proof -
  have counts: "map FunnelStage.count (funnelStages sample_funnel_leads) = [2, 1, 0, 0, 1, 0]"
    unfolding funnelStages_def Let_def funnel_counts
    by (simp add: sample_funnel_leads_def new_lead_def truthy_def)
  have den: "denominator (funnelStages sample_funnel_leads) = 2"
    unfolding denominator_def counts by simp
  have "\<forall>s \<in> set (funnelStages sample_funnel_leads).
          FunnelStage.percentage s = Num (of_nat (FunnelStage.count s) / of_nat 2 * 100)"
    using funnel_aggregation [of sample_funnel_leads] unfolding den by blast
  then have "map FunnelStage.percentage (funnelStages sample_funnel_leads)
               = map (\<lambda>c. Num (of_nat c / of_nat 2 * 100))
                   (map FunnelStage.count (funnelStages sample_funnel_leads))"
    by simp
  then have pcts: "map FunnelStage.percentage (funnelStages sample_funnel_leads)
                     = [Num 100, Num 50, Num 0, Num 0, Num 50, Num 0]"
    unfolding counts by simp
  have len: "length (funnelStages []) = 6"
    unfolding funnelStages_def funnelFromCounts_def Let_def by simp
  have zero: "\<forall>s \<in> set (funnelStages []).
                FunnelStage.count s = 0 \<and> FunnelStage.percentage s = Num 0"
    using funnel_aggregation [of "[]"] by blast
  have "map FunnelStage.count (funnelStages []) = replicate (length (funnelStages [])) 0"
    using zero by (simp add: map_replicate_const [symmetric])
  then have c0: "map FunnelStage.count (funnelStages []) = [0, 0, 0, 0, 0, 0]"
    unfolding len by (simp add: numeral_eq_Suc)
  have "map FunnelStage.percentage (funnelStages []) = replicate (length (funnelStages [])) (Num 0)"
    using zero by (simp add: map_replicate_const [symmetric])
  then have p0: "map FunnelStage.percentage (funnelStages [])
                   = [Num 0, Num 0, Num 0, Num 0, Num 0, Num 0]"
    unfolding len by (simp add: numeral_eq_Suc)
  have c1: "map FunnelStage.count (funnelStages [new_lead ''a'' ''a@x.io'']) = [0, 0, 0, 0, 0, 0]"
    unfolding funnelStages_def Let_def funnel_counts by (simp add: new_lead_def truthy_def)
  have d1: "denominator (funnelStages [new_lead ''a'' ''a@x.io'']) = 1"
    unfolding denominator_def c1 by simp
  have "\<forall>s \<in> set (funnelStages [new_lead ''a'' ''a@x.io'']).
          FunnelStage.percentage s = Num (of_nat (FunnelStage.count s) / of_nat 1 * 100)"
    using funnel_aggregation [of "[new_lead ''a'' ''a@x.io'']"] unfolding d1 by blast
  then have "map FunnelStage.percentage (funnelStages [new_lead ''a'' ''a@x.io''])
               = map (\<lambda>c. Num (of_nat c / of_nat 1 * 100))
                   (map FunnelStage.count (funnelStages [new_lead ''a'' ''a@x.io'']))"
    by simp
  then have p1: "map FunnelStage.percentage (funnelStages [new_lead ''a'' ''a@x.io''])
                   = [Num 0, Num 0, Num 0, Num 0, Num 0, Num 0]"
    unfolding c1 by simp
  from counts pcts den c0 p0 p1 show ?thesis by blast
qed

lemma six_cases: "j < 6 \<Longrightarrow> j = 0 \<or> j = 1 \<or> j = 2 \<or> j = 3 \<or> j = 4 \<or> j = (5::nat)"
  by arith

lemma list_of_six: "length cs = 6 \<Longrightarrow> cs = [cs ! 0, cs ! 1, cs ! 2, cs ! 3, cs ! 4, cs ! 5]"
  by (rule nth_equalityI) (auto dest!: six_cases)

lemma Math_max_six:
  "length cs = 6 \<Longrightarrow>
   Math_max [cs ! 0, cs ! 1, cs ! 2, cs ! 3, cs ! 4, cs ! 5, 1] = Math_max (cs @ [1])"
  using list_of_six [of cs] by (metis append_Cons append_Nil)

lemma funnelStages_funnelOfList:
  "funnelStages L = funnelOfList (map (\<lambda>flag. length (filter (\<lambda>l. truthy (flag l)) L)) checkpoints)"
  unfolding funnelStages_def funnelOfList_def Let_def checkpoints_def by simp

lemma funnelOfList_percentage:
  assumes "length cs = 6" "j < 6"
  shows "FunnelStage.percentage (funnelOfList cs ! j)
           = Num (of_nat (cs ! j) / of_nat (Math_max (cs @ [1])) * 100)"
proof -
  let ?m = "Math_max [cs ! 0, cs ! 1, cs ! 2, cs ! 3, cs ! 4, cs ! 5, 1]"
  have m: "0 < ?m" using Math_max_floor [of "cs ! 0" "cs ! 1" "cs ! 2" "cs ! 3" "cs ! 4" "cs ! 5"]
    by linarith
  have "FunnelStage.percentage (funnelOfList cs ! j) = times_100 (divide_counts (cs ! j) ?m)"
    using six_cases [OF assms(2)] unfolding funnelOfList_def funnelFromCounts_def Let_def by auto
  then have "FunnelStage.percentage (funnelOfList cs ! j) = Num (of_nat (cs ! j) / of_nat ?m * 100)"
    using percentage_finite [OF m] by simp
  then show ?thesis using Math_max_six [OF assms(1)] by simp
qed

lemma Math_max_ge_1: "1 \<le> Math_max (cs @ [1])"
  unfolding Math_max_def by simp

lemma Math_max_update_below:
  assumes "i < length cs" "cs ! i \<le> c'" "c' \<le> Math_max (cs @ [1])"
  shows "Math_max (cs[i := c'] @ [1]) = Math_max (cs @ [1])"
proof -
  let ?M = "Max (set (cs @ [1]))"
  have le: "\<forall>y \<in> set (cs[i := c'] @ [1]). y \<le> ?M"
  proof
    fix y assume "y \<in> set (cs[i := c'] @ [1])"
    then have "y = 1 \<or> y = c' \<or> y \<in> set cs"
      using set_update_subset_insert [of cs i c'] by auto
    then show "y \<le> ?M" using assms(3) unfolding Math_max_def by auto
  qed
  have "?M \<in> set (cs @ [1])" by (rule Max_in) auto
  then consider "?M = 1" | k where "k < length cs" "cs ! k = ?M"
    by (auto simp: in_set_conv_nth)
  then have mem: "?M \<in> set (cs[i := c'] @ [1])"
  proof cases
    case 1
    then show ?thesis by simp
  next
    case (2 k)
    show ?thesis
    proof (cases "k = i")
      case True
      have "cs ! i = ?M" using 2(2) True by blast
      moreover have "c' \<le> ?M" using assms(3) unfolding Math_max_def .
      ultimately have "c' = ?M" using assms(2) by linarith
      then have "?M \<in> set (cs[i := c'])" using assms(1) by (metis set_update_memI)
      then show ?thesis by simp
    next
      case False
      then have "cs[i := c'] ! k = ?M" using 2 by simp
      then have "?M \<in> set (cs[i := c'])" using 2(1) by (metis length_list_update nth_mem)
      then show ?thesis by simp
    qed
  qed
  have "Max (set (cs[i := c'] @ [1])) = ?M"
    by (rule Max_eqI) (use le mem in auto)
  then show ?thesis unfolding Math_max_def .
qed

lemma Math_max_update_above:
  assumes "i < length cs" "Math_max (cs @ [1]) < c'"
  shows "Math_max (cs[i := c'] @ [1]) = c'"
proof -
  have le: "\<forall>y \<in> set (cs[i := c'] @ [1]). y \<le> c'"
  proof
    fix y assume "y \<in> set (cs[i := c'] @ [1])"
    then have "y = c' \<or> y \<in> set (cs @ [1])"
      using set_update_subset_insert [of cs i c'] by auto
    moreover have "y \<in> set (cs @ [1]) \<Longrightarrow> y \<le> Max (set (cs @ [1]))" by (rule Max_ge) auto
    ultimately show "y \<le> c'" using assms(2) unfolding Math_max_def by auto
  qed
  have mem: "c' \<in> set (cs[i := c'] @ [1])"
    using assms(1) set_update_memI [of i cs c'] by simp
  have "Max (set (cs[i := c'] @ [1])) = c'"
    by (rule Max_eqI) (use le mem in auto)
  then show ?thesis unfolding Math_max_def .
qed

text \<open>
  C3. In the funnel of six counts, the percentage of checkpoint \<open>j\<close> is a function of its
  own count and of the shared maximum only; raising the count of another checkpoint \<open>i\<close>
  to a value that does not exceed the current maximum leaves the percentage of \<open>j\<close> as it
  was.
\<close>

theorem funnel_percentage_independent:
  assumes "length cs = 6" and "i < 6" and "j < 6" and "i \<noteq> j"
    and "cs ! i \<le> c'" and "c' \<le> Math_max (cs @ [1])"
  shows "FunnelStage.percentage (funnelOfList cs ! j)
           = Num (of_nat (cs ! j) / of_nat (Math_max (cs @ [1])) * 100)
       \<and> FunnelStage.percentage (funnelOfList (cs[i := c']) ! j)
           = FunnelStage.percentage (funnelOfList cs ! j)"
proof
  show old: "FunnelStage.percentage (funnelOfList cs ! j)
           = Num (of_nat (cs ! j) / of_nat (Math_max (cs @ [1])) * 100)"
    by (rule funnelOfList_percentage [OF assms(1,3)])
  have i: "i < length cs" using assms(1,2) by simp
  have "FunnelStage.percentage (funnelOfList (cs[i := c']) ! j)
          = Num (of_nat (cs[i := c'] ! j) / of_nat (Math_max (cs[i := c'] @ [1])) * 100)"
    by (rule funnelOfList_percentage) (use assms in auto)
  also have "cs[i := c'] ! j = cs ! j" using assms(4) by simp
  also have "Math_max (cs[i := c'] @ [1]) = Math_max (cs @ [1])"
    by (rule Math_max_update_below [OF i assms(5,6)])
  finally show "FunnelStage.percentage (funnelOfList (cs[i := c']) ! j)
           = FunnelStage.percentage (funnelOfList cs ! j)"
    unfolding old .
qed

text \<open>
  The theorem on the counts 5, 3, 2, 1, 1, 0: raising the second count from 3 to 4 keeps
  the third percentage at 40.
\<close>

theorem funnel_percentage_independent_witness:
  "FunnelStage.percentage (funnelOfList ([5, 3, 2, 1, 1, 0][1 := 4]) ! 2) = Num 40
   \<and> FunnelStage.percentage (funnelOfList [5, 3, 2, 1, 1, 0] ! 2) = Num 40"
proof -
  have "(4::nat) \<le> Math_max ([5, 3, 2, 1, 1, 0] @ [1])" by (simp add: Math_max_def)
  then have "FunnelStage.percentage (funnelOfList [5, 3, 2, 1, 1, 0] ! 2)
           = Num (of_nat ([5, 3, 2, 1, 1, 0] ! 2) / of_nat (Math_max ([5, 3, 2, 1, 1, 0] @ [1])) * 100)
       \<and> FunnelStage.percentage (funnelOfList ([5, 3, 2, 1, 1, 0][1 := 4]) ! 2)
           = FunnelStage.percentage (funnelOfList [5, 3, 2, 1, 1, 0] ! 2)"
    by (intro funnel_percentage_independent) simp_all
  then show ?thesis by (simp add: Math_max_def)
qed

text \<open>
  The condition cannot be dropped: a count raised above the current maximum lowers the
  percentage of every other checkpoint whose count is not zero.
\<close>

lemma funnel_percentage_new_maximum:
  assumes "length cs = 6" and "i < 6" and "j < 6" and "i \<noteq> j"
    and "Math_max (cs @ [1]) < c'" and "0 < cs ! j"
  shows "\<exists>q q'. FunnelStage.percentage (funnelOfList cs ! j) = Num q
            \<and> FunnelStage.percentage (funnelOfList (cs[i := c']) ! j) = Num q'
            \<and> q' < q"
proof -
  let ?M = "Math_max (cs @ [1])"
  have i: "i < length cs" using assms(1,2) by simp
  have M: "0 < ?M" using Math_max_ge_1 [of cs] by linarith
  have "FunnelStage.percentage (funnelOfList (cs[i := c']) ! j)
          = Num (of_nat (cs[i := c'] ! j) / of_nat (Math_max (cs[i := c'] @ [1])) * 100)"
    by (rule funnelOfList_percentage) (use assms in auto)
  also have "cs[i := c'] ! j = cs ! j" using assms(4) by simp
  also have "Math_max (cs[i := c'] @ [1]) = c'"
    by (rule Math_max_update_above [OF i assms(5)])
  finally have new: "FunnelStage.percentage (funnelOfList (cs[i := c']) ! j)
                       = Num (of_nat (cs ! j) / of_nat c' * 100)" .
  have old: "FunnelStage.percentage (funnelOfList cs ! j) = Num (of_nat (cs ! j) / of_nat ?M * 100)"
    by (rule funnelOfList_percentage [OF assms(1,3)])
  have "(of_nat (cs ! j) :: rat) / of_nat c' < of_nat (cs ! j) / of_nat ?M"
    using assms(5,6) M by (simp add: frac_less2)
  then have "of_nat (cs ! j) / of_nat c' * (100::rat) < of_nat (cs ! j) / of_nat ?M * 100"
    by (rule mult_strict_right_mono) simp
  then show ?thesis using new old by blast
qed

section \<open>Sorting: results\<close>

subsection \<open>The sort of the runtime\<close>

lemma mset_insert_by: "mset (insert_by c x ys) = add_mset x (mset ys)"
  by (induction ys) auto

lemma set_insert_by: "set (insert_by c x ys) = insert x (set ys)"
  by (induction ys) auto

lemma mset_insert_back: "mset (insert_back c x ys) = add_mset x (mset ys)"
  by (induction ys) auto

lemma set_insert_back: "set (insert_back c x ys) = insert x (set ys)"
  by (induction ys) auto

lemma Array_sort_Nil: "Array_sort eng c [] = []"
  by (cases eng) simp_all

lemma Array_sort_snoc_negative:
  "Array_sort TestsNegative c (xs @ [x]) = insert_by c x (Array_sort TestsNegative c xs)"
  by simp

lemma Array_sort_snoc_positive:
  "Array_sort TestsPositive c (xs @ [x])
     = rev (insert_back c x (rev (Array_sort TestsPositive c xs)))"
  by simp

lemma mset_Array_sort: "mset (Array_sort eng c xs) = mset xs"
proof (cases eng)
  case TestsNegative
  have "mset (Array_sort TestsNegative c xs) = mset xs"
    by (induction xs rule: rev_induct) (simp_all add: mset_insert_by del: Array_sort.simps
          add: Array_sort_Nil Array_sort_snoc_negative)
  then show ?thesis using TestsNegative by simp
next
  case TestsPositive
  have "mset (Array_sort TestsPositive c xs) = mset xs"
    by (induction xs rule: rev_induct) (simp_all add: mset_insert_back del: Array_sort.simps
          add: Array_sort_Nil Array_sort_snoc_positive)
  then show ?thesis using TestsPositive by simp
qed

lemma set_Array_sort: "set (Array_sort eng c xs) = set xs"
  using mset_Array_sort [of eng c xs] by (metis set_mset_mset)

lemma length_Array_sort: "length (Array_sort eng c xs) = length xs"
  using mset_Array_sort [of eng c xs] by (metis size_mset)

text \<open>An element that no test moves stays at the end.\<close>

lemma insert_by_last: "\<forall>y \<in> set ys. \<not> c x y < 0 \<Longrightarrow> insert_by c x ys = ys @ [x]"
  by (induction ys) auto

lemma Array_sort_sorted_negative:
  "sorted_wrt (\<lambda>a b. \<not> c b a < 0) xs \<Longrightarrow> Array_sort TestsNegative c xs = xs"
proof (induction xs rule: rev_induct)
  case Nil
  show ?case by (rule Array_sort_Nil)
next
  case (snoc x xs)
  from snoc.prems have sorted: "sorted_wrt (\<lambda>a b. \<not> c b a < 0) xs"
    and last: "\<forall>y \<in> set xs. \<not> c x y < 0"
    by (auto simp: sorted_wrt_append)
  have "Array_sort TestsNegative c (xs @ [x]) = insert_by c x xs"
    using snoc.IH [OF sorted] by (simp only: Array_sort_snoc_negative)
  moreover have "insert_by c x xs = xs @ [x]" using last by (rule insert_by_last)
  ultimately show ?case by simp
qed

lemma Array_sort_sorted_positive:
  "sorted_wrt (\<lambda>a b. \<not> c a b > 0) xs \<Longrightarrow> Array_sort TestsPositive c xs = xs"
proof (induction xs rule: rev_induct)
  case Nil
  show ?case by (rule Array_sort_Nil)
next
  case (snoc x xs)
  from snoc.prems have sorted: "sorted_wrt (\<lambda>a b. \<not> c a b > 0) xs"
    and last: "\<forall>y \<in> set xs. \<not> c y x > 0"
    by (auto simp: sorted_wrt_append)
  have "insert_back c x (rev xs) = x # rev xs"
  proof (cases xs rule: rev_cases)
    case Nil
    then show ?thesis by simp
  next
    case (snoc ys y)
    then show ?thesis using last by simp
  qed
  then have "rev (insert_back c x (rev xs)) = xs @ [x]" by simp
  then show ?case using snoc.IH [OF sorted] by (simp only: Array_sort_snoc_positive)
qed

text \<open>
  With tests for a negative result, the list comes out in order when "\<open>c a b < 0\<close>" is
  transitive and asymmetric: no element is below an element before it.
\<close>

lemma sorted_insert_by:
  assumes trans: "\<And>a b d. c a b < 0 \<Longrightarrow> c b d < 0 \<Longrightarrow> c a d < 0"
    and asym: "\<And>a b. c a b < 0 \<Longrightarrow> \<not> c b a < 0"
  shows "sorted_wrt (\<lambda>a b. \<not> c b a < 0) ys \<Longrightarrow> sorted_wrt (\<lambda>a b. \<not> c b a < 0) (insert_by c x ys)"
proof (induction ys)
  case Nil
  show ?case by simp
next
  case (Cons y ys)
  show ?case
  proof (cases "c x y < 0")
    case True
    have "\<not> c z x < 0" if "z \<in> set (y # ys)" for z
    proof
      assume "c z x < 0"
      then have "c z y < 0" using True trans by blast
      moreover have "z = y \<or> \<not> c z y < 0" using that Cons.prems by auto
      ultimately show False using asym by blast
    qed
    then show ?thesis using True Cons.prems by auto
  next
    case False
    have "sorted_wrt (\<lambda>a b. \<not> c b a < 0) (insert_by c x ys)"
      using Cons.IH Cons.prems by simp
    moreover have "\<forall>z \<in> set (insert_by c x ys). \<not> c z y < 0"
      using False Cons.prems by (auto simp: set_insert_by)
    ultimately show ?thesis using False by simp
  qed
qed

lemma sorted_Array_sort_negative:
  assumes "\<And>a b d. c a b < 0 \<Longrightarrow> c b d < 0 \<Longrightarrow> c a d < 0"
    and "\<And>a b. c a b < 0 \<Longrightarrow> \<not> c b a < 0"
  shows "sorted_wrt (\<lambda>a b. \<not> c b a < 0) (Array_sort TestsNegative c xs)"
proof (induction xs rule: rev_induct)
  case Nil
  show ?case by simp
next
  case (snoc x xs)
  show ?case unfolding Array_sort_snoc_negative
    by (rule sorted_insert_by [OF assms snoc.IH])
qed

text \<open>
  With tests for a positive result, the list comes out in order when "\<open>c a b > 0\<close>" is
  asymmetric between every element and the elements before it in the input, and its
  negation is transitive on the elements: no element is above an element after it.
\<close>

lemma sorted_insert_back:
  assumes asym: "\<And>y. y \<in> set ys \<Longrightarrow> c y x > 0 \<Longrightarrow> \<not> c x y > 0"
    and negtrans: "\<And>a b. a \<in> set ys \<Longrightarrow> b \<in> set ys
                     \<Longrightarrow> \<not> c a b > 0 \<Longrightarrow> \<not> c b x > 0 \<Longrightarrow> \<not> c a x > 0"
  shows "sorted_wrt (\<lambda>u v. \<not> c v u > 0) ys
         \<Longrightarrow> sorted_wrt (\<lambda>u v. \<not> c v u > 0) (insert_back c x ys)"
  using assms
proof (induction ys)
  case Nil
  show ?case by simp
next
  case (Cons y ys)
  from Cons.prems(1) have before: "\<forall>w \<in> set ys. \<not> c w y > 0"
    and rest: "sorted_wrt (\<lambda>u v. \<not> c v u > 0) ys"
    by auto
  show ?case
  proof (cases "c y x > 0")
    case True
    have "\<not> c x y > 0" using Cons.prems(2) [of y] True by simp
    moreover have "sorted_wrt (\<lambda>u v. \<not> c v u > 0) (insert_back c x ys)"
    proof (rule Cons.IH [OF rest])
      fix w assume "w \<in> set ys" "c w x > 0"
      then show "\<not> c x w > 0" using Cons.prems(2) [of w] by simp
    next
      fix a b assume "a \<in> set ys" "b \<in> set ys" "\<not> c a b > 0" "\<not> c b x > 0"
      then show "\<not> c a x > 0" using Cons.prems(3) [of a b] by simp
    qed
    ultimately show ?thesis using True before by (simp add: set_insert_back)
  next
    case False
    have "\<not> c w x > 0" if "w \<in> set ys" for w
      using Cons.prems(3) [of w y] that before False by simp
    then show ?thesis using False Cons.prems(1) by auto
  qed
qed

lemma sorted_Array_sort_positive:
  assumes asym: "\<And>pre x post y. xs = pre @ x # post \<Longrightarrow> y \<in> set pre \<Longrightarrow> c y x > 0
                   \<Longrightarrow> \<not> c x y > 0"
    and negtrans: "\<And>a b d. a \<in> set xs \<Longrightarrow> b \<in> set xs \<Longrightarrow> d \<in> set xs
                     \<Longrightarrow> \<not> c a b > 0 \<Longrightarrow> \<not> c b d > 0 \<Longrightarrow> \<not> c a d > 0"
  shows "sorted_wrt (\<lambda>a b. \<not> c a b > 0) (Array_sort TestsPositive c xs)"
proof -
  have "xs = ys @ zs \<Longrightarrow> sorted_wrt (\<lambda>u v. \<not> c v u > 0) (rev (Array_sort TestsPositive c ys))"
    for ys zs
  proof (induction ys arbitrary: zs rule: rev_induct)
    case Nil
    show ?case by simp
  next
    case (snoc y ys)
    from snoc.prems have split: "xs = ys @ y # zs" by simp
    have placed: "set (rev (Array_sort TestsPositive c ys)) = set ys"
      by (simp only: set_rev set_Array_sort)
    have "sorted_wrt (\<lambda>u v. \<not> c v u > 0) (insert_back c y (rev (Array_sort TestsPositive c ys)))"
    proof (rule sorted_insert_back)
      show "sorted_wrt (\<lambda>u v. \<not> c v u > 0) (rev (Array_sort TestsPositive c ys))"
        using snoc.IH [OF split] .
    next
      fix w assume "w \<in> set (rev (Array_sort TestsPositive c ys))" "c w y > 0"
      then show "\<not> c y w > 0" using asym [OF split] placed by blast
    next
      fix a b
      assume "a \<in> set (rev (Array_sort TestsPositive c ys))"
        "b \<in> set (rev (Array_sort TestsPositive c ys))" "\<not> c a b > 0" "\<not> c b y > 0"
      then show "\<not> c a y > 0" using negtrans [of a b y] placed split by auto
    qed
    then show ?case by (simp only: Array_sort_snoc_positive rev_rev_ident)
  qed
  from this [of xs "[]"] show ?thesis by (simp add: sorted_wrt_rev del: Array_sort.simps)
qed

subsection \<open>The comparator of the lead tables\<close>

lemma compareFn_None_left: "sortColumn a = None \<Longrightarrow> compareFn sortColumn dir a b = 1"
  by (simp add: compareFn_def)

lemma compareFn_None_right:
  "sortColumn a \<noteq> None \<Longrightarrow> sortColumn b = None \<Longrightarrow> compareFn sortColumn dir a b = - 1"
  by (auto simp: compareFn_def)

text \<open>
  For two leads without a value the comparator says of each that it comes after the
  other: it is not a consistent comparator.
\<close>

lemma compareFn_both_None:
  "sortColumn a = None \<Longrightarrow> sortColumn b = None
   \<Longrightarrow> compareFn sortColumn dir a b = 1 \<and> compareFn sortColumn dir b a = 1"
  by (simp add: compareFn_def)

lemma compareFn_trans:
  "compareFn sortColumn dir a b < 0 \<Longrightarrow> compareFn sortColumn dir b d < 0
   \<Longrightarrow> compareFn sortColumn dir a d < 0"
  by (cases dir) (auto simp: compareFn_def Let_def split: option.splits if_splits)

lemma compareFn_asym:
  "compareFn sortColumn dir a b < 0 \<Longrightarrow> \<not> compareFn sortColumn dir b a < 0"
  by (cases dir) (auto simp: compareFn_def Let_def split: option.splits if_splits)

lemma compareFn_positive_negtrans:
  "\<not> compareFn sortColumn dir a b > 0 \<Longrightarrow> \<not> compareFn sortColumn dir b d > 0
   \<Longrightarrow> \<not> compareFn sortColumn dir a d > 0"
  by (cases dir) (auto simp: compareFn_def Let_def split: option.splits if_splits)

lemma compareFn_positive_asym:
  "sortColumn a \<noteq> None \<or> sortColumn b \<noteq> None \<Longrightarrow> compareFn sortColumn dir a b > 0
   \<Longrightarrow> \<not> compareFn sortColumn dir b a > 0"
  by (cases dir) (auto simp: compareFn_def Let_def split: option.splits if_splits)

lemma sorted_sortedLeads_negative:
  "sorted_wrt (\<lambda>a b. \<not> compareFn sortColumn dir b a < 0)
     (sortedLeads TestsNegative sortColumn dir L)"
  unfolding sortedLeads_def
  by (rule sorted_Array_sort_negative) (erule (1) compareFn_trans, erule compareFn_asym)

lemma sorted_sortedLeads_positive:
  assumes "length (filter (\<lambda>l. sortColumn l = None) L) \<le> 1"
  shows "sorted_wrt (\<lambda>a b. \<not> compareFn sortColumn dir a b > 0)
           (sortedLeads TestsPositive sortColumn dir L)"
  unfolding sortedLeads_def
proof (rule sorted_Array_sort_positive)
  fix pre x post y
  assume split: "L = pre @ x # post" and y: "y \<in> set pre"
    and above: "compareFn sortColumn dir y x > 0"
  have "sortColumn y \<noteq> None \<or> sortColumn x \<noteq> None"
  proof (rule ccontr)
    assume "\<not> (sortColumn y \<noteq> None \<or> sortColumn x \<noteq> None)"
    then have none: "sortColumn y = None" "sortColumn x = None" by simp_all
    have "filter (\<lambda>l. sortColumn l = None) pre \<noteq> []"
      using y none(1) by (auto simp: filter_empty_conv)
    then have "1 \<le> length (filter (\<lambda>l. sortColumn l = None) pre)"
      by (simp add: Suc_le_eq)
    then have "2 \<le> length (filter (\<lambda>l. sortColumn l = None) L)"
      using none(2) unfolding split by simp
    then show False using assms by simp
  qed
  then show "\<not> compareFn sortColumn dir x y > 0"
    using above by (rule compareFn_positive_asym)
next
  fix a b d
  assume "\<not> compareFn sortColumn dir a b > 0" "\<not> compareFn sortColumn dir b d > 0"
  then show "\<not> compareFn sortColumn dir a d > 0" by (rule compareFn_positive_negtrans)
qed

text \<open>Leads without a value stay behind the leads with one, at every insertion.\<close>

lemma nulls_last_insert_by:
  "sorted_wrt (\<lambda>a b. sortColumn a = None \<longrightarrow> sortColumn b = None) ys \<Longrightarrow>
   sorted_wrt (\<lambda>a b. sortColumn a = None \<longrightarrow> sortColumn b = None)
     (insert_by (compareFn sortColumn dir) x ys)"
proof (induction ys)
  case Nil
  show ?case by simp
next
  case (Cons y ys)
  show ?case
  proof (cases "compareFn sortColumn dir x y < 0")
    case True
    then have "sortColumn x \<noteq> None" using compareFn_None_left [of sortColumn x dir y] by auto
    then show ?thesis using True Cons.prems by auto
  next
    case False
    have x: "sortColumn y = None \<longrightarrow> sortColumn x = None"
      using False compareFn_None_right [of sortColumn x y dir] by (cases "sortColumn x") auto
    have "sorted_wrt (\<lambda>a b. sortColumn a = None \<longrightarrow> sortColumn b = None)
            (insert_by (compareFn sortColumn dir) x ys)"
      using Cons.IH Cons.prems by simp
    then show ?thesis using False x Cons.prems by (auto simp: set_insert_by)
  qed
qed

lemma nulls_last_insert_back:
  "sorted_wrt (\<lambda>u v. sortColumn v = None \<longrightarrow> sortColumn u = None) ys \<Longrightarrow>
   sorted_wrt (\<lambda>u v. sortColumn v = None \<longrightarrow> sortColumn u = None)
     (insert_back (compareFn sortColumn dir) x ys)"
proof (induction ys)
  case Nil
  show ?case by simp
next
  case (Cons y ys)
  show ?case
  proof (cases "compareFn sortColumn dir y x > 0")
    case True
    have x: "sortColumn x = None \<longrightarrow> sortColumn y = None"
      using True compareFn_None_right [of sortColumn y x dir] by (cases "sortColumn y") auto
    have "sorted_wrt (\<lambda>u v. sortColumn v = None \<longrightarrow> sortColumn u = None)
            (insert_back (compareFn sortColumn dir) x ys)"
      using Cons.IH Cons.prems by simp
    then show ?thesis using True x Cons.prems by (auto simp: set_insert_back)
  next
    case False
    then have "sortColumn y \<noteq> None" using compareFn_None_left [of sortColumn y dir x] by auto
    then show ?thesis using False Cons.prems by auto
  qed
qed

lemma nulls_last_sortedLeads:
  "sorted_wrt (\<lambda>a b. sortColumn a = None \<longrightarrow> sortColumn b = None)
     (sortedLeads eng sortColumn dir L)"
proof (cases eng)
  case TestsNegative
  have "sorted_wrt (\<lambda>a b. sortColumn a = None \<longrightarrow> sortColumn b = None)
          (Array_sort TestsNegative (compareFn sortColumn dir) L)"
    by (induction L rule: rev_induct)
       (simp_all only: Array_sort_Nil Array_sort_snoc_negative nulls_last_insert_by
          sorted_wrt.simps)
  then show ?thesis using TestsNegative by (simp only: sortedLeads_def)
next
  case TestsPositive
  have "sorted_wrt (\<lambda>u v. sortColumn v = None \<longrightarrow> sortColumn u = None)
          (rev (Array_sort TestsPositive (compareFn sortColumn dir) L))"
    by (induction L rule: rev_induct)
       (simp_all only: Array_sort_Nil Array_sort_snoc_positive nulls_last_insert_back
          sorted_wrt.simps rev_rev_ident rev.simps)
  then show ?thesis using TestsPositive
    by (simp add: sortedLeads_def sorted_wrt_rev del: Array_sort.simps)
qed

lemma last_of_nulls_last:
  assumes "sorted_wrt (\<lambda>a b. f a = None \<longrightarrow> f b = None) ys"
    and "filter (\<lambda>l. f l = None) ys \<noteq> []"
  shows "last ys = last (filter (\<lambda>l. f l = None) ys)"
  using assms
proof (induction ys rule: rev_induct)
  case Nil
  then show ?case by simp
next
  case (snoc y ys)
  from snoc.prems(2) obtain z where z: "z \<in> set (ys @ [y])" "f z = None"
    by (metis (mono_tags, lifting) filter_empty_conv)
  have "f y = None"
  proof (cases "z \<in> set ys")
    case True
    then show ?thesis using snoc.prems(1) z(2) by (auto simp: sorted_wrt_append)
  next
    case False
    then show ?thesis using z by simp
  qed
  then show ?case by simp
qed

lemma filter_sortedLeads_single:
  assumes "filter P L = [x]"
  shows "filter P (sortedLeads eng sortColumn dir L) = [x]"
proof -
  have "mset (filter P (sortedLeads eng sortColumn dir L)) = filter_mset P (mset L)"
    unfolding sortedLeads_def by (simp add: mset_Array_sort del: Array_sort.simps)
  also have "\<dots> = mset (filter P L)" by simp
  finally have "mset (filter P (sortedLeads eng sortColumn dir L)) = {#x#}" using assms by simp
  then show ?thesis by (simp only: mset_single_iff)
qed

section \<open>Pagination: results\<close>

lemma least_pages:
  assumes "0 < p"
  shows "((n + p - 1) div p \<le> (k::nat)) = (n \<le> k * p)"
proof -
  have "((n + p - 1) div p \<le> k) = ((n + p - 1) div p < Suc k)" by auto
  also have "\<dots> = (n + p - 1 < Suc k * p)" using assms by (simp add: div_less_iff_less_mult)
  also have "\<dots> = (n \<le> k * p)" using assms by auto
  finally show ?thesis .
qed

lemma ceiling_le_pages:
  assumes "0 < p"
  shows "(\<lceil>(of_nat n :: rat) / of_nat p\<rceil> \<le> int k) = (n \<le> k * p)"
proof -
  have "(\<lceil>(of_nat n :: rat) / of_nat p\<rceil> \<le> int k) = ((of_nat n :: rat) / of_nat p \<le> of_nat k)"
    by (simp add: ceiling_le_iff)
  also have "\<dots> = ((of_nat n :: rat) \<le> of_nat k * of_nat p)"
    using assms by (simp add: pos_divide_le_eq)
  also have "\<dots> = (n \<le> k * p)"
    by (metis of_nat_le_iff of_nat_mult)
  finally show ?thesis .
qed

lemma ceiling_pages:
  assumes "0 < p"
  shows "\<lceil>(of_nat n :: rat) / of_nat p\<rceil> = int ((n + p - 1) div p)"
proof (rule antisym)
  have "n \<le> ((n + p - 1) div p) * p" using least_pages [OF assms, of n "(n + p - 1) div p"] by simp
  then show "\<lceil>(of_nat n :: rat) / of_nat p\<rceil> \<le> int ((n + p - 1) div p)"
    using ceiling_le_pages [OF assms] by blast
next
  have "(0::rat) \<le> of_nat n / of_nat p" by simp
  also have "\<dots> \<le> of_int \<lceil>(of_nat n :: rat) / of_nat p\<rceil>" by (rule le_of_int_ceiling)
  finally have "0 \<le> \<lceil>(of_nat n :: rat) / of_nat p\<rceil>" by simp
  then obtain k where k: "\<lceil>(of_nat n :: rat) / of_nat p\<rceil> = int k"
    using nonneg_int_cases by blast
  then have "n \<le> k * p" using ceiling_le_pages [OF assms, of n k] by simp
  then have "(n + p - 1) div p \<le> k" using least_pages [OF assms] by blast
  then show "int ((n + p - 1) div p) \<le> \<lceil>(of_nat n :: rat) / of_nat p\<rceil>" using k by simp
qed

lemma slice_nonneg:
  assumes "0 \<le> a" and "a \<le> b"
  shows "slice xs a b = take (nat (b - a)) (drop (nat a) xs)"
proof (cases "a \<le> int (length xs)")
  case True
  show ?thesis
  proof (cases "b \<le> int (length xs)")
    case True
    then show ?thesis using assms \<open>a \<le> int (length xs)\<close>
      by (simp add: slice_def Let_def min_def)
  next
    case False
    then have "length (drop (nat a) xs) \<le> nat (b - a)" using assms True by simp
    then have "take (nat (b - a)) (drop (nat a) xs) = drop (nat a) xs" by simp
    moreover have "slice xs a b = take (nat (int (length xs) - a)) (drop (nat a) xs)"
      using assms True False by (simp add: slice_def Let_def min_def)
    moreover have "length (drop (nat a) xs) \<le> nat (int (length xs) - a)" using assms by simp
    ultimately show ?thesis by simp
  qed
next
  case False
  then have "drop (nat a) xs = []" using assms by simp
  moreover have "slice xs a b = []" using assms False by (simp add: slice_def Let_def min_def)
  ultimately show ?thesis by simp
qed

lemma currentLeads_page:
  assumes "1 \<le> p"
  shows "currentLeads pageSize p xs = take pageSize (drop (nat (p - 1) * pageSize) xs)"
proof -
  have a: "0 \<le> (p - 1) * int pageSize" using assms by simp
  have b: "(p - 1) * int pageSize \<le> p * int pageSize" by (simp add: mult_right_mono)
  have "currentLeads pageSize p xs = slice xs ((p - 1) * int pageSize) (p * int pageSize)"
    by (simp add: currentLeads_def Let_def left_diff_distrib)
  also have "\<dots> = take (nat (p * int pageSize - (p - 1) * int pageSize))
                      (drop (nat ((p - 1) * int pageSize)) xs)"
    by (rule slice_nonneg [OF a b])
  also have "p * int pageSize - (p - 1) * int pageSize = int pageSize"
    by (simp add: left_diff_distrib)
  also have "nat ((p - 1) * int pageSize) = nat (p - 1) * pageSize"
    using assms by (simp add: nat_mult_distrib)
  finally show ?thesis by simp
qed

lemma take_drop_nth:
  "take n (drop a xs) = map (\<lambda>i. xs ! i) [a ..< min (a + n) (length xs)]"
proof (rule nth_equalityI)
  show "length (take n (drop a xs)) = length (map (\<lambda>i. xs ! i) [a ..< min (a + n) (length xs)])"
    by auto
next
  fix i assume "i < length (take n (drop a xs))"
  then have i: "i < n" "a + i < length xs" by auto
  then have l: "i < length [a ..< min (a + n) (length xs)]" by simp
  then have "map (\<lambda>i. xs ! i) [a ..< min (a + n) (length xs)] ! i
               = xs ! ([a ..< min (a + n) (length xs)] ! i)"
    by (rule nth_map)
  also have "[a ..< min (a + n) (length xs)] ! i = a + i"
    by (rule nth_upt) (use i in simp)
  finally have "map (\<lambda>i. xs ! i) [a ..< min (a + n) (length xs)] ! i = xs ! (a + i)" .
  moreover have "take n (drop a xs) ! i = xs ! (a + i)" using i by simp
  ultimately show "take n (drop a xs) ! i = map (\<lambda>i. xs ! i) [a ..< min (a + n) (length xs)] ! i"
    by simp
qed
section \<open>Pipeline: results\<close>

text \<open>
  C5. For every list of leads, every sort column and both directions, the sorted list is
  a rearrangement of the input in which no lead with a value in the sort column comes
  after a lead without one, whichever way the engine consults the comparator. In
  particular, when exactly one lead has no \<^verbatim>\<open>last_updated_at\<close>, that lead is the last of
  the list sorted by \<^verbatim>\<open>last_updated_at\<close>, in either direction.
\<close>

theorem nulls_sort_last:
  fixes sortColumn :: "lead \<Rightarrow> 'v::linorder option"
  shows "mset (sortedLeads eng sortColumn dir L) = mset L
     \<and> (\<forall>i j. i < j \<and> j < length (sortedLeads eng sortColumn dir L)
              \<and> sortColumn (sortedLeads eng sortColumn dir L ! i) = None
            \<longrightarrow> sortColumn (sortedLeads eng sortColumn dir L ! j) = None)
     \<and> (\<forall>x d. filter (\<lambda>l. last_updated_at l = None) L = [x]
            \<longrightarrow> last (sortedLeads eng last_updated_at d L) = x)"
proof (intro conjI allI impI)
  show "mset (sortedLeads eng sortColumn dir L) = mset L"
    unfolding sortedLeads_def by (rule mset_Array_sort)
next
  fix i j
  assume "i < j \<and> j < length (sortedLeads eng sortColumn dir L)
            \<and> sortColumn (sortedLeads eng sortColumn dir L ! i) = None"
  then show "sortColumn (sortedLeads eng sortColumn dir L ! j) = None"
    using nulls_last_sortedLeads [of sortColumn eng dir L]
    by (auto simp: sorted_wrt_iff_nth_less)
next
  fix x d
  assume one: "filter (\<lambda>l. last_updated_at l = None) L = [x]"
  have single: "filter (\<lambda>l. last_updated_at l = None) (sortedLeads eng last_updated_at d L) = [x]"
    using one by (rule filter_sortedLeads_single)
  have "last (sortedLeads eng last_updated_at d L)
          = last (filter (\<lambda>l. last_updated_at l = None) (sortedLeads eng last_updated_at d L))"
    by (rule last_of_nulls_last [OF nulls_last_sortedLeads]) (simp add: single)
  then show "last (sortedLeads eng last_updated_at d L) = x" by (simp add: single)
qed

text \<open>
  The theorem on four sample leads, the second of which has no \<^verbatim>\<open>last_updated_at\<close>:
  it is last in descending and in ascending order, on either engine.
\<close>

theorem nulls_sort_last_witness:
  "map lead_id (sortedLeads TestsNegative last_updated_at desc sample_sort_leads)
     = [''3'', ''1'', ''4'', ''2'']
   \<and> map lead_id (sortedLeads TestsNegative last_updated_at asc sample_sort_leads)
     = [''4'', ''1'', ''3'', ''2'']
   \<and> map lead_id (sortedLeads TestsPositive last_updated_at desc sample_sort_leads)
     = [''3'', ''1'', ''4'', ''2'']
   \<and> map lead_id (sortedLeads TestsPositive last_updated_at asc sample_sort_leads)
     = [''4'', ''1'', ''3'', ''2'']
   \<and> last (sortedLeads TestsNegative last_updated_at desc sample_sort_leads)
     = new_lead ''2'' ''bob@x.io''
   \<and> last (sortedLeads TestsNegative last_updated_at asc sample_sort_leads)
     = new_lead ''2'' ''bob@x.io''
   \<and> last (sortedLeads TestsPositive last_updated_at desc sample_sort_leads)
     = new_lead ''2'' ''bob@x.io''
   \<and> last (sortedLeads TestsPositive last_updated_at asc sample_sort_leads)
     = new_lead ''2'' ''bob@x.io''"
proof -
  have one: "filter (\<lambda>l. last_updated_at l = None) sample_sort_leads = [new_lead ''2'' ''bob@x.io'']"
    by (simp add: sample_sort_leads_def new_lead_def)
  have last: "last (sortedLeads eng last_updated_at d sample_sort_leads) = new_lead ''2'' ''bob@x.io''"
    for eng d
    using nulls_sort_last [of eng last_updated_at desc sample_sort_leads] one by blast
  have "map lead_id (sortedLeads TestsNegative last_updated_at desc sample_sort_leads)
          = [''3'', ''1'', ''4'', ''2'']"
    by (simp add: sample_sort_leads_def sortedLeads_def compareFn_def new_lead_def)
  moreover
  have "map lead_id (sortedLeads TestsNegative last_updated_at asc sample_sort_leads)
          = [''4'', ''1'', ''3'', ''2'']"
    by (simp add: sample_sort_leads_def sortedLeads_def compareFn_def new_lead_def)
  moreover
  have "map lead_id (sortedLeads TestsPositive last_updated_at desc sample_sort_leads)
          = [''3'', ''1'', ''4'', ''2'']"
    by (simp add: sample_sort_leads_def sortedLeads_def compareFn_def new_lead_def)
  moreover
  have "map lead_id (sortedLeads TestsPositive last_updated_at asc sample_sort_leads)
          = [''4'', ''1'', ''3'', ''2'']"
    by (simp add: sample_sort_leads_def sortedLeads_def compareFn_def new_lead_def)
  ultimately show ?thesis using last by blast
qed

lemma filteredLeads_no_constraint: "filteredLeads toLowerCase [] no_filters L = L"
  by (simp add: filteredLeads_def no_filters_def searchMatch_def)

text \<open>
  C6. With an empty search term and every field filter empty, search and filter are the
  identity, so the page of the full pipeline is the page of the sorted input, for every
  sort column, direction, page size and page index (and for every engine and every
  lower-casing function).
\<close>

theorem pipeline_no_constraint:
  fixes sortColumn :: "lead \<Rightarrow> 'v::linorder option"
  shows "filteredLeads toLowerCase [] no_filters L = L
     \<and> currentLeads pageSize page (pipeline toLowerCase eng [] no_filters sortColumn dir L)
         = currentLeads pageSize page (sortedLeads eng sortColumn dir L)"
  by (simp add: pipeline_def filteredLeads_no_constraint)

text \<open>The theorem on the sample leads, page 1 of size 25.\<close>

theorem pipeline_no_constraint_witness:
  "filteredLeads toLowerCase_Latin1 [] no_filters sample_sort_leads = sample_sort_leads
   \<and> map lead_id (currentLeads leadsPerPage_ActiveCampaigns 1
        (pipeline toLowerCase_Latin1 TestsNegative [] no_filters last_updated_at desc
           sample_sort_leads))
       = [''3'', ''1'', ''4'', ''2'']"
proof -
  have "map lead_id (sortedLeads TestsNegative last_updated_at desc sample_sort_leads)
          = [''3'', ''1'', ''4'', ''2'']"
    by (simp add: sample_sort_leads_def sortedLeads_def compareFn_def new_lead_def)
  moreover have "currentLeads leadsPerPage_ActiveCampaigns 1
                   (sortedLeads TestsNegative last_updated_at desc sample_sort_leads)
                   = sortedLeads TestsNegative last_updated_at desc sample_sort_leads"
    by (simp add: currentLeads_page leadsPerPage_ActiveCampaigns_def sortedLeads_def
          length_Array_sort sample_sort_leads_def del: Array_sort.simps)
  ultimately show ?thesis
    using pipeline_no_constraint [of toLowerCase_Latin1 sample_sort_leads
        leadsPerPage_ActiveCampaigns 1 TestsNegative last_updated_at desc]
    by simp
qed

lemma filteredLeads_idem:
  assumes "set ys = set (filteredLeads toLowerCase searchTerm fs L)"
  shows "filteredLeads toLowerCase searchTerm fs ys = ys"
  using assms unfolding filteredLeads_def by (auto simp: filter_id_conv)

text \<open>
  Where search, filter and sort are idempotent: on an engine that tests for a negative
  result, always; on an engine that tests for a positive result, when at most one of the
  leads that pass the filters has no value in the sort column.
\<close>

lemma pipeline_idempotent_negative:
  fixes sortColumn :: "lead \<Rightarrow> 'v::linorder option"
  shows "pipeline toLowerCase TestsNegative searchTerm fs sortColumn dir
           (pipeline toLowerCase TestsNegative searchTerm fs sortColumn dir L)
           = pipeline toLowerCase TestsNegative searchTerm fs sortColumn dir L"
proof -
  let ?S = "pipeline toLowerCase TestsNegative searchTerm fs sortColumn dir L"
  have "set ?S = set (filteredLeads toLowerCase searchTerm fs L)"
    unfolding pipeline_def sortedLeads_def by (rule set_Array_sort)
  then have keep: "filteredLeads toLowerCase searchTerm fs ?S = ?S" by (rule filteredLeads_idem)
  have "sorted_wrt (\<lambda>a b. \<not> compareFn sortColumn dir b a < 0) ?S"
    unfolding pipeline_def by (rule sorted_sortedLeads_negative)
  then have "sortedLeads TestsNegative sortColumn dir ?S = ?S"
    unfolding sortedLeads_def by (rule Array_sort_sorted_negative)
  then show ?thesis using keep unfolding pipeline_def by simp
qed

lemma pipeline_idempotent_positive:
  fixes sortColumn :: "lead \<Rightarrow> 'v::linorder option"
  assumes "length (filter (\<lambda>l. sortColumn l = None) (filteredLeads toLowerCase searchTerm fs L))
             \<le> 1"
  shows "pipeline toLowerCase TestsPositive searchTerm fs sortColumn dir
           (pipeline toLowerCase TestsPositive searchTerm fs sortColumn dir L)
           = pipeline toLowerCase TestsPositive searchTerm fs sortColumn dir L"
proof -
  let ?S = "pipeline toLowerCase TestsPositive searchTerm fs sortColumn dir L"
  have "set ?S = set (filteredLeads toLowerCase searchTerm fs L)"
    unfolding pipeline_def sortedLeads_def by (rule set_Array_sort)
  then have keep: "filteredLeads toLowerCase searchTerm fs ?S = ?S" by (rule filteredLeads_idem)
  have "sorted_wrt (\<lambda>a b. \<not> compareFn sortColumn dir a b > 0) ?S"
    unfolding pipeline_def by (rule sorted_sortedLeads_positive [OF assms])
  then have "sortedLeads TestsPositive sortColumn dir ?S = ?S"
    unfolding sortedLeads_def by (rule Array_sort_sorted_positive)
  then show ?thesis using keep unfolding pipeline_def by simp
qed

text \<open>
  C7 fails on two leads without a value in the sort column. The comparator (lines 101
  and 102) answers 1 for such a pair in both orders, so it is not a consistent comparator
  and the order of the two leads is left to the engine. On an engine that tests for a
  positive result every sort reverses them: with an empty search term, no filter and the
  sort by \<^verbatim>\<open>fullname\<close> ascending, two leads without a name come out as 2, 1 after one pass
  and as 1, 2 after two, where the claim has the second pass return the result of the
  first.
\<close>

theorem pipeline_not_idempotent:
  "compareFn fullname asc (new_lead ''1'' ''ann@x.io'') (new_lead ''2'' ''bob@x.io'') = 1
   \<and> compareFn fullname asc (new_lead ''2'' ''bob@x.io'') (new_lead ''1'' ''ann@x.io'') = 1
   \<and> map lead_id (pipeline toLowerCase_Latin1 TestsPositive [] no_filters fullname asc
         sample_nameless_leads) = [''2'', ''1'']
   \<and> map lead_id (pipeline toLowerCase_Latin1 TestsPositive [] no_filters fullname asc
         (pipeline toLowerCase_Latin1 TestsPositive [] no_filters fullname asc
            sample_nameless_leads)) = [''1'', ''2'']"
  by (simp add: pipeline_def filteredLeads_no_constraint sortedLeads_def compareFn_def
        sample_nameless_leads_def new_lead_def)

text \<open>
  C8. For every list of \<open>n\<close> leads and the page size of a view (20 in Replies, 25 in the
  other list views), the page count is the ceiling of \<open>n / pageSize\<close>, that is the least
  \<open>k\<close> with \<open>n \<le> k * pageSize\<close>; the 1-based page \<open>p\<close> holds the leads from index
  \<open>(p - 1) * pageSize\<close> up to \<open>p * pageSize\<close>; and a page that starts at or beyond \<open>n\<close> is
  empty.
\<close>

theorem pagination:
  assumes "pageSize = leadsPerPage_RepliesEngagement \<or> pageSize = leadsPerPage_ActiveCampaigns"
    and "1 \<le> p"
  shows "totalPages xs pageSize = int ((length xs + pageSize - 1) div pageSize)
     \<and> (\<forall>k. (totalPages xs pageSize \<le> int k) = (length xs \<le> k * pageSize))
     \<and> currentLeads pageSize p xs = take pageSize (drop (nat (p - 1) * pageSize) xs)
     \<and> currentLeads pageSize p xs
         = map (\<lambda>i. xs ! i) [nat (p - 1) * pageSize ..< min (nat p * pageSize) (length xs)]
     \<and> (length xs \<le> nat (p - 1) * pageSize \<longrightarrow> currentLeads pageSize p xs = [])"
proof -
  have pos: "0 < pageSize"
    using assms(1) by (auto simp: leadsPerPage_RepliesEngagement_def leadsPerPage_ActiveCampaigns_def)
  have page: "currentLeads pageSize p xs = take pageSize (drop (nat (p - 1) * pageSize) xs)"
    by (rule currentLeads_page [OF assms(2)])
  have "nat p = nat (p - 1) + 1" using assms(2) by simp
  then have upper: "nat p * pageSize = nat (p - 1) * pageSize + pageSize" by simp
  have "take pageSize (drop (nat (p - 1) * pageSize) xs)
          = map (\<lambda>i. xs ! i) [nat (p - 1) * pageSize ..< min (nat p * pageSize) (length xs)]"
    unfolding upper by (rule take_drop_nth)
  then have index: "currentLeads pageSize p xs
          = map (\<lambda>i. xs ! i) [nat (p - 1) * pageSize ..< min (nat p * pageSize) (length xs)]"
    using page by simp
  have total: "totalPages xs pageSize = int ((length xs + pageSize - 1) div pageSize)"
    unfolding totalPages_def by (rule ceiling_pages [OF pos])
  have least: "\<forall>k. (totalPages xs pageSize \<le> int k) = (length xs \<le> k * pageSize)"
    unfolding totalPages_def using ceiling_le_pages [OF pos] by blast
  have beyond: "length xs \<le> nat (p - 1) * pageSize \<longrightarrow> currentLeads pageSize p xs = []"
    unfolding page by simp
  from total least page index beyond show ?thesis by blast
qed

text \<open>
  The theorem on 45 leads in the Replies view (pages of 20): three pages, page 3 holds
  the leads 40 to 44, and page 4 is empty.
\<close>

theorem pagination_witness:
  "totalPages [0 ..< 45] leadsPerPage_RepliesEngagement = 3
   \<and> currentLeads leadsPerPage_RepliesEngagement 3 [0 ..< 45] = [40, 41, 42, 43, 44]
   \<and> currentLeads leadsPerPage_RepliesEngagement 4 [0 ..< 45] = []
   \<and> totalPages [0 ..< 45] leadsPerPage_ActiveCampaigns = 2"
  using pagination [of leadsPerPage_RepliesEngagement 3 "[0 ..< 45]"]
    pagination [of leadsPerPage_RepliesEngagement 4 "[0 ..< 45]"]
    pagination [of leadsPerPage_ActiveCampaigns 1 "[0 ..< 45]"]
  by (simp add: leadsPerPage_RepliesEngagement_def leadsPerPage_ActiveCampaigns_def upt_rec [of "40"] upt_rec [of "41"] upt_rec [of "42"] upt_rec [of "43"] upt_rec [of "44"] upt_rec [of "45"])

section \<open>Optimistic update: results\<close>


lemma updateLeadStatus_success:
  "fst (updateLeadStatus now1 now2 Success X f v s)
     = s \<lparr> leads := filter (\<lambda>l. lead_id l \<noteq> X) (leads s),
           updatingLeads := updatingLeads s - {X} \<rparr>"
  by (simp add: updateLeadStatus_def Let_def)





text \<open>
  No control calls \<^verbatim>\<open>updateLeadStatus\<close> with \<^verbatim>\<open>booked\<close> and \<^verbatim>\<open>false\<close>; such a call would
  send no \<^verbatim>\<open>booked_at\<close> key at all.
\<close>

lemma updateLeadStatus_data_booked_false:
  "upd_booked_at (updateLeadStatus_data now1 now2 Booked False) = None"
  by (simp add: updateLeadStatus_data_def)



text \<open>
  C10. After a successful toggle on the lead id \<open>X\<close>, the local collection is the previous
  one without the leads whose id is \<open>X\<close>: every other lead is still there, unmodified and
  as many times as before, and the remaining leads keep their order.
\<close>

theorem optimistic_removal_frame:
  "leads (fst (updateLeadStatus now1 now2 Success X f v s))
     = filter (\<lambda>l. lead_id l \<noteq> X) (leads s)
   \<and> subseq (leads (fst (updateLeadStatus now1 now2 Success X f v s))) (leads s)
   \<and> (\<forall>l. l \<in> set (leads (fst (updateLeadStatus now1 now2 Success X f v s)))
          \<longleftrightarrow> l \<in> set (leads s) \<and> lead_id l \<noteq> X)
   \<and> (\<forall>l. lead_id l \<noteq> X \<longrightarrow>
          count_list (leads (fst (updateLeadStatus now1 now2 Success X f v s))) l
            = count_list (leads s) l)
   \<and> error (fst (updateLeadStatus now1 now2 Success X f v s)) = error s"
proof -
  have eq: "leads (fst (updateLeadStatus now1 now2 Success X f v s))
     = filter (\<lambda>l. lead_id l \<noteq> X) (leads s)"
    by (simp add: updateLeadStatus_success)
  have cnt: "lead_id l \<noteq> X \<Longrightarrow> count_list (filter (\<lambda>l. lead_id l \<noteq> X) xs) l = count_list xs l"
    for l :: lead and xs
    by (induction xs) auto
  have err: "error (fst (updateLeadStatus now1 now2 Success X f v s)) = error s"
    by (simp add: updateLeadStatus_success)
  show ?thesis unfolding eq using cnt err by auto
qed

text \<open>The theorem on the view of three leads, toggling lead 2 in Active Campaigns.\<close>

theorem optimistic_removal_frame_witness:
  "leads (fst (updateLeadStatus ''t1'' ''t2'' Success ''2'' Replied True sample_view))
     = [new_lead ''1'' ''ann@x.io'', new_lead ''3'' ''cy@x.io'']
   \<and> subseq (leads (fst (updateLeadStatus ''t1'' ''t2'' Success ''2'' Replied True sample_view)))
        (leads sample_view)"
proof -
  note t = optimistic_removal_frame [of "''t1''" "''t2''" "''2''" Replied True sample_view]
  have kept: "filter (\<lambda>l. lead_id l \<noteq> ''2'') (leads sample_view)
          = [new_lead ''1'' ''ann@x.io'', new_lead ''3'' ''cy@x.io'']"
    by (simp add: sample_view_def new_lead_def)
  from t have "leads (fst (updateLeadStatus ''t1'' ''t2'' Success ''2'' Replied True sample_view))
          = filter (\<lambda>l. lead_id l \<noteq> ''2'') (leads sample_view)"
    by (rule conjunct1)
  then have a: "leads (fst (updateLeadStatus ''t1'' ''t2'' Success ''2'' Replied True sample_view))
          = [new_lead ''1'' ''ann@x.io'', new_lead ''3'' ''cy@x.io'']"
    using kept by (rule trans)
  from t have b: "subseq (leads (fst (updateLeadStatus ''t1'' ''t2'' Success ''2'' Replied True sample_view)))
        (leads sample_view)"
    by blast
  from a b show ?thesis by (rule conjI)
qed

section \<open>Booked-meetings analytics: results\<close>

lemma groupStats_Nil: "groupStats f [] = []"
  by (simp add: groupStats_def)

lemma groupStats_snoc:
  "groupStats f (L @ [l]) =
     set_property (groupStats f L) (or_Unknown (f l))
       (or_zero_plus_one (get_property (groupStats f L) (or_Unknown (f l))))"
  by (simp add: groupStats_def Let_def)

lemma proto_not_own: "k \<notin> set Object_prototype_keys \<Longrightarrow> k \<noteq> ''__proto__''"
  by (auto simp: Object_prototype_keys_def)

text \<open>
  As long as no group key is the name of a property of \<^verbatim>\<open>Object.prototype\<close>, the
  accumulator holds each key once, with the number of leads that have it.
\<close>

lemma groupStats_counts:
  assumes "\<forall>k \<in> set (group_keys f L). k \<notin> set Object_prototype_keys"
  shows "distinct (map fst (groupStats f L))
       \<and> (\<forall>k. map_of (groupStats f L) k =
              (if k \<in> set (group_keys f L) then Some (Count (count_list (group_keys f L) k))
               else None))"
  using assms
proof (induction L rule: rev_induct)
  case Nil
  show ?case by (simp add: groupStats_Nil group_keys_def)
next
  case (snoc l L)
  let ?acc = "groupStats f L" and ?k = "or_Unknown (f l)" and ?ks = "group_keys f L"
  have safe: "?k \<notin> set Object_prototype_keys" using snoc.prems by (simp add: group_keys_def)
  have "\<forall>k \<in> set ?ks. k \<notin> set Object_prototype_keys" using snoc.prems by (simp add: group_keys_def)
  with snoc.IH have dist: "distinct (map fst ?acc)"
    and look: "\<And>k. map_of ?acc k =
                 (if k \<in> set ?ks then Some (Count (count_list ?ks k)) else None)"
    by blast+
  define v where "v = (if ?k \<in> set ?ks then Count (count_list ?ks ?k + 1) else Count 1)"
  have "or_zero_plus_one (get_property ?acc ?k) = v"
    using safe look [of ?k] by (auto simp: get_property_def v_def)
  then have step: "groupStats f (L @ [l]) = AList.update ?k v ?acc"
    using proto_not_own [OF safe] by (simp add: groupStats_snoc set_property_def)
  have keys: "group_keys f (L @ [l]) = ?ks @ [?k]" by (simp add: group_keys_def)
  have "distinct (map fst (AList.update ?k v ?acc))" using dist by (rule distinct_update)
  moreover have "map_of (AList.update ?k v ?acc) k =
              (if k \<in> set (?ks @ [?k]) then Some (Count (count_list (?ks @ [?k]) k)) else None)"
    for k
    using look [of k] by (auto simp: update_conv' v_def count_list_0_iff)
  ultimately show ?case unfolding step keys by blast
qed

lemma mset_Object_entries: "mset (Object_entries obj) = mset obj"
  by (simp add: Object_entries_def)

lemma set_Object_entries: "set (Object_entries obj) = set obj"
  using mset_Object_entries [of obj] by (metis set_mset_mset)

lemma byCountDesc_trans: "byCountDesc a b < 0 \<Longrightarrow> byCountDesc b d < 0 \<Longrightarrow> byCountDesc a d < 0"
  by (auto simp: byCountDesc_def split: cell.splits)

lemma byCountDesc_asym: "byCountDesc a b < 0 \<Longrightarrow> \<not> byCountDesc b a < 0"
  by (auto simp: byCountDesc_def split: cell.splits)

lemma sorted_groupData_negative:
  "sorted_wrt (\<lambda>a b. \<not> byCountDesc b a < 0) (groupData TestsNegative f L)"
  unfolding groupData_def
  by (rule sorted_Array_sort_negative) (erule (1) byCountDesc_trans, erule byCountDesc_asym)

lemma sorted_numeric_positive:
  assumes "\<forall>r \<in> set rows. \<exists>n. GroupRow.count r = Count n"
  shows "sorted_wrt (\<lambda>a b. \<not> byCountDesc a b > 0) (Array_sort TestsPositive byCountDesc rows)"
proof (rule sorted_Array_sort_positive)
  fix pre x post y
  assume "byCountDesc y x > 0"
  then show "\<not> byCountDesc x y > 0"
    by (auto simp: byCountDesc_def split: cell.splits)
next
  fix a b d
  assume "a \<in> set rows" "b \<in> set rows" "d \<in> set rows"
    and "\<not> byCountDesc a b > 0" "\<not> byCountDesc b d > 0"
  then show "\<not> byCountDesc a d > 0"
    using assms by (fastforce simp: byCountDesc_def split: cell.splits)
qed

lemma set_groupData:
  "set (groupData eng f L) =
     (\<lambda>(n, c). \<lparr> GroupRow.name = n, count = c, percentage = row_percentage c (length L) \<rparr>)
       ` set (groupStats f L)"
  unfolding groupData_def by (simp add: set_Array_sort set_Object_entries del: Array_sort.simps)

lemma names_groupData:
  "mset (map GroupRow.name (groupData eng f L)) = mset (map fst (groupStats f L))"
proof -
  have "mset (map GroupRow.name (groupData eng f L))
          = image_mset GroupRow.name (mset (groupData eng f L))" by simp
  also have "\<dots> = image_mset GroupRow.name
      (image_mset (\<lambda>(n, c). \<lparr> GroupRow.name = n, count = c, percentage = row_percentage c (length L) \<rparr>)
         (mset (Object_entries (groupStats f L))))"
    unfolding groupData_def by (simp add: mset_Array_sort del: Array_sort.simps)
  also have "\<dots> = image_mset fst (mset (Object_entries (groupStats f L)))"
    by (simp add: image_mset.compositionality comp_def case_prod_beta)
  also have "\<dots> = mset (map fst (groupStats f L))" by (simp add: mset_Object_entries)
  finally show ?thesis .
qed

lemma or_Unknown_cases:
  "or_Unknown None = ''Unknown''" "or_Unknown (Some []) = ''Unknown''"
  "s \<noteq> [] \<Longrightarrow> or_Unknown (Some s) = s"
  by (simp_all add: or_Unknown_def)

text \<open>
  What the breakdown gives when no group key is the name of a property of
  \<^verbatim>\<open>Object.prototype\<close>: one row for each key that occurs, with the number of leads of
  that key, its share of the collection in percent, and the rows in descending order of
  count.
\<close>

lemma groupData_without_inherited_keys:
  assumes "\<forall>k \<in> set (group_keys f L). k \<notin> set Object_prototype_keys"
  shows "distinct (map GroupRow.name (groupData eng f L))
     \<and> set (map GroupRow.name (groupData eng f L)) = set (group_keys f L)
     \<and> (\<forall>r \<in> set (groupData eng f L).
           GroupRow.count r = Count (count_list (group_keys f L) (GroupRow.name r))
         \<and> GroupRow.percentage r =
             Num (of_nat (count_list (group_keys f L) (GroupRow.name r)) / of_nat (length L) * 100))
     \<and> (\<forall>i j. i < j \<and> j < length (groupData eng f L) \<longrightarrow>
           count_list (group_keys f L) (GroupRow.name (groupData eng f L ! j))
             \<le> count_list (group_keys f L) (GroupRow.name (groupData eng f L ! i)))"
proof -
  let ?ks = "group_keys f L" and ?acc = "groupStats f L" and ?rows = "groupData eng f L"
  from groupStats_counts [OF assms]
  have dist: "distinct (map fst ?acc)"
    and look: "\<And>k. map_of ?acc k = (if k \<in> set ?ks then Some (Count (count_list ?ks k)) else None)"
    by blast+
  have names: "mset (map GroupRow.name ?rows) = mset (map fst ?acc)" by (rule names_groupData)
  have d: "distinct (map GroupRow.name ?rows)"
    using names dist by (metis mset_eq_imp_distinct_iff)
  have "set (map fst ?acc) = set ?ks"
  proof -
    have "set (map fst ?acc) = dom (map_of ?acc)" by (simp add: dom_map_of_conv_image_fst)
    also have "\<dots> = set ?ks" using look by (auto simp: dom_def)
    finally show ?thesis .
  qed
  then have s: "set (map GroupRow.name ?rows) = set ?ks"
    using names by (metis set_mset_mset)
  have "L \<noteq> []" if "r \<in> set ?rows" for r
  proof
    assume "L = []"
    then have "?rows = []"
      by (simp add: groupData_def groupStats_def Object_entries_def Array_sort_Nil
            del: Array_sort.simps)
    then show False using that by simp
  qed
  then have len: "0 < length L" if "r \<in> set ?rows" for r using that by auto
  have row: "GroupRow.count r = Count (count_list ?ks (GroupRow.name r))
         \<and> GroupRow.percentage r = Num (of_nat (count_list ?ks (GroupRow.name r)) / of_nat (length L) * 100)"
    if "r \<in> set ?rows" for r
  proof -
    from that obtain n c where nc: "(n, c) \<in> set ?acc"
      and r: "r = \<lparr> GroupRow.name = n, count = c, percentage = row_percentage c (length L) \<rparr>"
      unfolding set_groupData by auto
    from nc dist have "map_of ?acc n = Some c" by simp
    then have "c = Count (count_list ?ks n)" using look [of n] by (auto split: if_splits)
    then show ?thesis using r len [OF that] by (simp add: row_percentage_def percentage_finite)
  qed
  have entries_numeric: "\<forall>r \<in> set (map (\<lambda>(n, c). \<lparr> GroupRow.name = n, count = c,
                                   percentage = row_percentage c (length L) \<rparr>)
                          (Object_entries ?acc)). \<exists>n. GroupRow.count r = Count n"
  proof
    fix r
    assume "r \<in> set (map (\<lambda>(n, c). \<lparr> GroupRow.name = n, count = c,
                                   percentage = row_percentage c (length L) \<rparr>)
                          (Object_entries ?acc))"
    then have "r \<in> set ?rows"
      unfolding groupData_def by (simp only: set_Array_sort)
    then show "\<exists>n. GroupRow.count r = Count n" using row by blast
  qed
  have ord: "count_list ?ks (GroupRow.name (?rows ! j)) \<le> count_list ?ks (GroupRow.name (?rows ! i))"
    if "i < j \<and> j < length ?rows" for i j
  proof -
    have i: "GroupRow.count (?rows ! i) = Count (count_list ?ks (GroupRow.name (?rows ! i)))"
      using row [of "?rows ! i"] that by simp
    have j: "GroupRow.count (?rows ! j) = Count (count_list ?ks (GroupRow.name (?rows ! j)))"
      using row [of "?rows ! j"] that by simp
    show ?thesis
    proof (cases eng)
      case TestsNegative
      then have "\<not> byCountDesc (?rows ! j) (?rows ! i) < 0"
        using that sorted_groupData_negative [of f L] by (auto simp: sorted_wrt_iff_nth_less)
      then show ?thesis using i j by (simp add: byCountDesc_def)
    next
      case TestsPositive
      have "sorted_wrt (\<lambda>a b. \<not> byCountDesc a b > 0) (groupData TestsPositive f L)"
        unfolding groupData_def using entries_numeric by (rule sorted_numeric_positive)
      then have "\<not> byCountDesc (?rows ! i) (?rows ! j) > 0"
        using that TestsPositive by (auto simp: sorted_wrt_iff_nth_less)
      then show ?thesis using i j by (simp add: byCountDesc_def)
    qed
  qed
  from d s row ord show ?thesis by blast
qed

text \<open>The breakdown of six sample leads by industry: Retail 3, Unknown 2, SaaS 1.\<close>

lemma groupData_sample:
  "industryData (analytics eng sample_booked_leads) =
     [\<lparr> GroupRow.name = ''Retail'', count = Count 3, percentage = Num 50 \<rparr>,
      \<lparr> GroupRow.name = ''Unknown'', count = Count 2, percentage = Num (100 / 3) \<rparr>,
      \<lparr> GroupRow.name = ''SaaS'', count = Count 1, percentage = Num (50 / 3) \<rparr>]"
  by (cases eng)
     (simp_all add: analytics_def groupData_def groupStats_def sample_booked_leads_def new_lead_def
        or_Unknown_def get_property_def set_property_def Object_prototype_keys_def
        Object_entries_def is_array_index_def is_digit_def row_percentage_def
        divide_counts_def times_100_def byCountDesc_def)

text \<open>
  C4 fails on a group key that names a property of \<^verbatim>\<open>Object.prototype\<close>. For one booked
  lead of industry "constructor", \<^verbatim>\<open>acc[industry]\<close> reads the inherited function, which is
  truthy, so \<^verbatim>\<open>+ 1\<close> concatenates: the row has a count that is not a number and the
  percentage \<^verbatim>\<open>NaN\<close>, where the claim has count 1 and 100 percent. A lead of industry
  "__proto__" gets no row at all.
\<close>

theorem analytics_inherited_key:
  "industryData (analytics eng
      [new_lead ''1'' ''ann@x.io'' \<lparr> industry := Some ''constructor'' \<rparr>])
     = [\<lparr> GroupRow.name = ''constructor'', count = NonNumeric, percentage = NaN \<rparr>]
   \<and> industryData (analytics eng
      [new_lead ''1'' ''ann@x.io'' \<lparr> industry := Some ''__proto__'' \<rparr>])
     = []"
  by (cases eng)
     (simp_all add: analytics_def groupData_def groupStats_def new_lead_def
        or_Unknown_def get_property_def set_property_def Object_prototype_keys_def
        Object_entries_def is_array_index_def is_digit_def row_percentage_def
        byCountDesc_def)

end
